theory Spec2Isabelle
  imports Complex_Main "HOL-Library.Monad_Syntax"
begin

section \<open>Hilbert basis computation (muz\_qe/hilbert\_basis.cpp)\<close>

text \<open>
  A shallow embedding of \<^verbatim>\<open>hilbert_basis.cpp\<close>. Numerals are arbitrary-precision
  rationals (\<^typ>\<open>rat\<close>). An \<^verbatim>\<open>offset_t\<close> wraps an unsigned index into the flat
  store; it is a \<^typ>\<open>nat\<close> here (the 32-bit bound is not reached by any store that
  fits in memory). Classes are records, member functions take the object and return it
  updated. An access outside a vector, a lookup of a key that a map does not hold and
  \<^verbatim>\<open>pop\<close> on an empty queue are undefined behaviour in the C++ (debug builds stop at
  an assertion); the model returns \<open>None\<close> there, so every function that reads a
  vector by index lives in the option monad. The statistics counters are left out:
  no control flow reads them.
\<close>

type_synonym numeral = rat
type_synonym offset_t = nat

datatype lbool = l_false | l_undef | l_true

datatype sign_t = pos | neg | zero

subsection \<open>Checked vector access\<close>

definition nth_opt :: "'a list \<Rightarrow> nat \<Rightarrow> 'a option" where
  "nth_opt xs i = (if i < length xs then Some (xs ! i) else None)"

definition upd_opt :: "'a list \<Rightarrow> nat \<Rightarrow> 'a \<Rightarrow> 'a list option" where
  "upd_opt xs i v = (if i < length xs then Some (xs[i := v]) else None)"

subsection \<open>The comparator \<^verbatim>\<open>rational_lt\<close> and the binary heap\<close>

text \<open>
  \<^verbatim>\<open>rational_lt\<close> compares two small ids through a vector of numerals. The ids a heap
  holds are always below the length of that vector (\<^verbatim>\<open>set_bounds\<close> is called with it),
  which the invariants below record.
\<close>

definition rational_lt :: "numeral list \<Rightarrow> nat \<Rightarrow> nat \<Rightarrow> bool" where
  "rational_lt values v1 v2 = (values ! v1 < values ! v2)"

text \<open>
  Modelled from the spec: the class template \<^verbatim>\<open>heap\<close> of \<^verbatim>\<open>heap.h\<close>, which is not
  part of the source at hand. The spec (4.5) describes a binary min-heap over small
  integer ids whose comparator indirects through a values array, with the operations
  \<^verbatim>\<open>insert(id)\<close>, \<^verbatim>\<open>erase_min() -> id\<close>, \<^verbatim>\<open>set_bounds(m)\<close>,
  \<^verbatim>\<open>find_le(threshold_id)\<close> (the ids whose value is at most the threshold's value, in
  an unspecified order), \<^verbatim>\<open>reset\<close> and \<^verbatim>\<open>empty\<close>. The model keeps the ids held in
  insertion order; \<^verbatim>\<open>erase_min\<close> removes the first id of least value, and
  \<^verbatim>\<open>set_bounds\<close> has no effect on the ids held.
\<close>

type_synonym heap = "nat list"

definition heap_insert :: "nat \<Rightarrow> heap \<Rightarrow> heap" where
  "heap_insert v h = h @ [v]"

definition heap_empty :: "heap \<Rightarrow> bool" where
  "heap_empty h = (h = [])"

definition heap_find_le :: "(nat \<Rightarrow> nat \<Rightarrow> bool) \<Rightarrow> nat \<Rightarrow> heap \<Rightarrow> nat list" where
  "heap_find_le lt val h = filter (\<lambda>i. \<not> lt val i) h"

fun heap_min :: "(nat \<Rightarrow> nat \<Rightarrow> bool) \<Rightarrow> nat \<Rightarrow> nat list \<Rightarrow> nat" where
  "heap_min lt m [] = m"
| "heap_min lt m (x # xs) = heap_min lt (if lt x m then x else m) xs"

definition heap_erase_min :: "(nat \<Rightarrow> nat \<Rightarrow> bool) \<Rightarrow> heap \<Rightarrow> (nat \<times> heap) option" where
  "heap_erase_min lt h =
     (case h of [] \<Rightarrow> None
      | x # xs \<Rightarrow> (let m = heap_min lt x xs in Some (m, remove1 m h)))"

subsection \<open>\<^verbatim>\<open>rational_heap\<close>\<close>

text \<open>
  The map \<^verbatim>\<open>m_r2u\<close> is an association list read with \<^const>\<open>map_of\<close>; an insertion
  puts the new pair in front.
\<close>

record rational_heap =
  m_u2r :: "numeral list"
  m_r2u :: "(numeral \<times> nat) list"
  rh_heap :: heap

definition rh_reset :: rational_heap where
  "rh_reset = \<lparr> m_u2r = [], m_r2u = [], rh_heap = [] \<rparr>"

definition rh_insert :: "nat \<Rightarrow> rational_heap \<Rightarrow> rational_heap" where
  "rh_insert v h = h \<lparr> rh_heap := heap_insert v (rh_heap h) \<rparr>"

definition is_declared :: "rational_heap \<Rightarrow> numeral \<Rightarrow> nat option" where
  "is_declared h r = map_of (m_r2u h) r"

definition rh_declare :: "numeral \<Rightarrow> rational_heap \<Rightarrow> nat \<times> rational_heap" where
  "rh_declare r h =
     (let val = length (m_u2r h)
      in (val, h \<lparr> m_u2r := m_u2r h @ [r], m_r2u := (r, val) # m_r2u h \<rparr>))"

definition rh_find_le :: "rational_heap \<Rightarrow> nat \<Rightarrow> nat list" where
  "rh_find_le h val = heap_find_le (rational_lt (m_u2r h)) val (rh_heap h)"

text \<open>\<^verbatim>\<open>find_le(numeral const& r, ...)\<close> looks \<open>r\<close> up with \<^verbatim>\<open>m_r2u.find(r)\<close>, which
  has no result for a numeral that was never declared.\<close>

definition rh_find_le_num :: "rational_heap \<Rightarrow> numeral \<Rightarrow> nat list option" where
  "rh_find_le_num h r =
     (case map_of (m_r2u h) r of None \<Rightarrow> None | Some val \<Rightarrow> Some (rh_find_le h val))"

subsection \<open>\<^verbatim>\<open>weight_map\<close>\<close>

record weight_map =
  wm_heap :: rational_heap
  m_offsets :: "nat list list"
  m_le :: "nat list"

definition wm_reset :: weight_map where
  "wm_reset = \<lparr> wm_heap = rh_reset, m_offsets = [], m_le = [] \<rparr>"

definition get_value :: "numeral \<Rightarrow> weight_map \<Rightarrow> nat \<times> weight_map" where
  "get_value w wm =
     (case is_declared (wm_heap wm) w of
        Some val \<Rightarrow> (val, wm)
      | None \<Rightarrow>
          (let (val, h) = rh_declare w (wm_heap wm);
               h' = (if 0 \<le> w then rh_insert val h else h)
           in (val, wm \<lparr> wm_heap := h', m_offsets := m_offsets wm @ [[]] \<rparr>)))"

definition wm_insert :: "offset_t \<Rightarrow> numeral \<Rightarrow> weight_map \<Rightarrow> weight_map option" where
  "wm_insert idx w wm =
     (let (val, wm1) = get_value w wm
      in do {
        offs \<leftarrow> nth_opt (m_offsets wm1) val;
        Some (wm1 \<lparr> m_offsets := (m_offsets wm1)[val := offs @ [idx]] \<rparr>)
      })"

text \<open>\<^verbatim>\<open>unsigned_vector::erase(elem)\<close> removes the first occurrence of the element, if
  there is one.\<close>

definition wm_remove :: "offset_t \<Rightarrow> numeral \<Rightarrow> weight_map \<Rightarrow> weight_map option" where
  "wm_remove idx w wm =
     (let (val, wm1) = get_value w wm
      in do {
        offs \<leftarrow> nth_opt (m_offsets wm1) val;
        Some (wm1 \<lparr> m_offsets := (m_offsets wm1)[val := remove1 idx offs] \<rparr>)
      })"

text \<open>
  The working map \<^verbatim>\<open>refs\<close> (a \<^verbatim>\<open>u_map<unsigned>\<close>) is an association list read with
  \<^const>\<open>map_of\<close>. The scan state of the two find procedures is the triple of
  \<^verbatim>\<open>refs\<close>, the out-parameter \<^verbatim>\<open>found_idx\<close> and the flag \<^verbatim>\<open>found\<close>.
\<close>

type_synonym offset_refs_t = "(nat \<times> nat) list"
type_synonym scan = "offset_refs_t \<times> offset_t \<times> bool"

definition init_scan :: "offset_t \<Rightarrow> nat list \<Rightarrow> scan \<Rightarrow> scan" where
  "init_scan idx offsets s =
     fold (\<lambda>offs (refs, found_idx, found).
             if offs \<noteq> idx then ((offs, 0) # refs, offs, True)
             else (refs, found_idx, found)) offsets s"

fun init_loop :: "weight_map \<Rightarrow> numeral \<Rightarrow> offset_t \<Rightarrow> nat list \<Rightarrow> scan \<Rightarrow> scan option" where
  "init_loop wm w idx [] s = Some s"
| "init_loop wm w idx (v # le) s =
     do {
       r \<leftarrow> nth_opt (m_u2r (wm_heap wm)) v;
       if r = 0 \<and> 0 < w then init_loop wm w idx le s
       else do {
         offsets \<leftarrow> nth_opt (m_offsets wm) v;
         init_loop wm w idx le (init_scan idx offsets s)
       }
     }"

definition init_find ::
  "offset_refs_t \<Rightarrow> numeral \<Rightarrow> offset_t \<Rightarrow> offset_t \<Rightarrow> weight_map
     \<Rightarrow> (bool \<times> offset_refs_t \<times> offset_t \<times> weight_map) option" where
  "init_find refs w idx found_idx wm =
     (let (val, wm1) = get_value w wm;
          le = (if 0 < w then rh_find_le (wm_heap wm1) val else [val]);
          wm2 = wm1 \<lparr> m_le := le \<rparr>
      in do {
        (refs', found_idx', found) \<leftarrow> init_loop wm2 w idx le (refs, found_idx, False);
        Some (found, refs', found_idx', wm2)
      })"

definition update_scan :: "nat \<Rightarrow> offset_t \<Rightarrow> nat list \<Rightarrow> scan \<Rightarrow> scan" where
  "update_scan rnd idx offsets s =
     fold (\<lambda>offs (refs, found_idx, found).
             if offs \<noteq> idx \<and> map_of refs offs = Some rnd
             then ((offs, rnd + 1) # refs, offs, True)
             else (refs, found_idx, found)) offsets s"

fun update_loop :: "weight_map \<Rightarrow> nat \<Rightarrow> offset_t \<Rightarrow> nat list \<Rightarrow> scan \<Rightarrow> scan option" where
  "update_loop wm rnd idx [] s = Some s"
| "update_loop wm rnd idx (v # le) s =
     do {
       offsets \<leftarrow> nth_opt (m_offsets wm) v;
       update_loop wm rnd idx le (update_scan rnd idx offsets s)
     }"

definition update_find ::
  "offset_refs_t \<Rightarrow> nat \<Rightarrow> numeral \<Rightarrow> offset_t \<Rightarrow> offset_t \<Rightarrow> weight_map
     \<Rightarrow> (bool \<times> offset_refs_t \<times> offset_t \<times> weight_map) option" where
  "update_find refs rnd w idx found_idx wm =
     do {
       le \<leftarrow> rh_find_le_num (wm_heap wm) w;
       let wm1 = wm \<lparr> m_le := le \<rparr>;
       (refs', found_idx', found) \<leftarrow> update_loop wm1 rnd idx le (refs, found_idx, False);
       Some (found, refs', found_idx', wm1)
     }"

subsection \<open>\<^verbatim>\<open>index\<close>\<close>

record index =
  m_values :: "weight_map list"
  m_weight :: weight_map
  m_refs :: offset_refs_t

definition index_new :: index where
  "index_new = \<lparr> m_values = [], m_weight = wm_reset, m_refs = [] \<rparr>"

definition index_init :: "nat \<Rightarrow> index \<Rightarrow> index" where
  "index_init num_vars ix =
     (if m_values ix = [] then ix \<lparr> m_values := replicate num_vars wm_reset \<rparr> else ix)"

text \<open>The loops of \<^verbatim>\<open>insert\<close> and \<^verbatim>\<open>remove\<close> walk the coordinate maps and read
  \<^verbatim>\<open>vs[i]\<close> for each of them.\<close>

fun insert_loop :: "offset_t \<Rightarrow> numeral list \<Rightarrow> nat \<Rightarrow> weight_map list \<Rightarrow> weight_map list option" where
  "insert_loop idx vs i [] = Some []"
| "insert_loop idx vs i (wm # wms) =
     do {
       v \<leftarrow> nth_opt vs i;
       wm' \<leftarrow> wm_insert idx v wm;
       wms' \<leftarrow> insert_loop idx vs (i + 1) wms;
       Some (wm' # wms')
     }"

definition index_insert :: "offset_t \<Rightarrow> numeral list \<Rightarrow> numeral \<Rightarrow> index \<Rightarrow> index option" where
  "index_insert idx vs weight ix =
     do {
       wms \<leftarrow> insert_loop idx vs 0 (m_values ix);
       w \<leftarrow> wm_insert idx weight (m_weight ix);
       Some (ix \<lparr> m_values := wms, m_weight := w \<rparr>)
     }"

fun remove_loop :: "offset_t \<Rightarrow> numeral list \<Rightarrow> nat \<Rightarrow> weight_map list \<Rightarrow> weight_map list option" where
  "remove_loop idx vs i [] = Some []"
| "remove_loop idx vs i (wm # wms) =
     do {
       v \<leftarrow> nth_opt vs i;
       wm' \<leftarrow> wm_remove idx v wm;
       wms' \<leftarrow> remove_loop idx vs (i + 1) wms;
       Some (wm' # wms')
     }"

definition index_remove :: "offset_t \<Rightarrow> numeral list \<Rightarrow> numeral \<Rightarrow> index \<Rightarrow> index option" where
  "index_remove idx vs weight ix =
     do {
       wms \<leftarrow> remove_loop idx vs 0 (m_values ix);
       w \<leftarrow> wm_remove idx weight (m_weight ix);
       Some (ix \<lparr> m_values := wms, m_weight := w \<rparr>)
     }"

text \<open>
  The loop of \<^verbatim>\<open>find\<close> runs \<^verbatim>\<open>update_find\<close> on coordinate map \<open>i\<close> as long as
  \<^verbatim>\<open>found\<close> holds; the maps after the first failure are left untouched. The result
  carries the flag, \<^verbatim>\<open>refs\<close>, \<^verbatim>\<open>found_idx\<close> and the coordinate maps.
\<close>

fun find_loop ::
  "numeral list \<Rightarrow> offset_t \<Rightarrow> nat \<Rightarrow> weight_map list \<Rightarrow> bool \<times> offset_refs_t \<times> offset_t
     \<Rightarrow> ((bool \<times> offset_refs_t \<times> offset_t) \<times> weight_map list) option" where
  "find_loop vs idx i [] s = Some (s, [])"
| "find_loop vs idx i (wm # wms) (found, refs, found_idx) =
     (if found then
        do {
          v \<leftarrow> nth_opt vs i;
          (found', refs', found_idx', wm') \<leftarrow> update_find refs i v idx found_idx wm;
          (s', wms') \<leftarrow> find_loop vs idx (i + 1) wms (found', refs', found_idx');
          Some (s', wm' # wms')
        }
      else Some ((found, refs, found_idx), wm # wms))"

definition index_find ::
  "numeral list \<Rightarrow> numeral \<Rightarrow> offset_t \<Rightarrow> offset_t \<Rightarrow> index \<Rightarrow> (bool \<times> offset_t \<times> index) option" where
  "index_find vs weight idx found_idx ix =
     do {
       (found, refs, found_idx1, w) \<leftarrow> init_find (m_refs ix) weight idx found_idx (m_weight ix);
       ((found', refs', found_idx'), wms) \<leftarrow>
          find_loop vs idx 0 (m_values ix) (found, refs, found_idx1);
       Some (found', found_idx', ix \<lparr> m_values := wms, m_weight := w, m_refs := [] \<rparr>)
     }"

definition index_reset :: "index \<Rightarrow> index" where
  "index_reset ix =
     ix \<lparr> m_values := map (\<lambda>_. wm_reset) (m_values ix), m_weight := wm_reset, m_refs := [] \<rparr>"

subsection \<open>\<^verbatim>\<open>passive\<close>: the priority queue\<close>

text \<open>
  The queue holds a reference to the engine only to read a vector in \<^verbatim>\<open>get_weight\<close>;
  here \<open>passive_insert\<close> takes the weight that \<^verbatim>\<open>get_weight\<close> computed (see
  \<open>get_weight\<close> below). \<^verbatim>\<open>mk_invalid_offset\<close> is \<^verbatim>\<open>UINT_MAX\<close>.
\<close>

record passive_queue =
  pv_passive :: "offset_t list"
  m_weights :: "numeral list"
  pv_free_list :: "nat list"
  pv_heap :: heap

definition mk_invalid_offset :: offset_t where
  "mk_invalid_offset = 4294967295"

text \<open>The sentinel is only ever stored and compared; it is kept symbolic when a run is
  evaluated.\<close>

declare mk_invalid_offset_def [code del]

definition passive_reset :: passive_queue where
  "passive_reset = \<lparr> pv_passive = [], m_weights = [], pv_free_list = [], pv_heap = [] \<rparr>"

definition passive_empty :: "passive_queue \<Rightarrow> bool" where
  "passive_empty p = heap_empty (pv_heap p)"

definition passive_pop :: "passive_queue \<Rightarrow> (offset_t \<times> passive_queue) option" where
  "passive_pop p =
     do {
       (val, h) \<leftarrow> heap_erase_min (rational_lt (m_weights p)) (pv_heap p);
       result \<leftarrow> nth_opt (pv_passive p) val;
       Some (result, p \<lparr> pv_passive := (pv_passive p)[val := mk_invalid_offset],
                          pv_free_list := pv_free_list p @ [val],
                          pv_heap := h \<rparr>)
     }"

definition passive_insert :: "offset_t \<Rightarrow> numeral \<Rightarrow> passive_queue \<Rightarrow> passive_queue option" where
  "passive_insert idx w p =
     (if pv_free_list p = [] then
        (let v = length (pv_passive p)
         in Some (p \<lparr> pv_passive := pv_passive p @ [idx],
                      m_weights := m_weights p @ [w],
                      pv_heap := heap_insert v (pv_heap p) \<rparr>))
      else
        (let v = last (pv_free_list p)
         in do {
           ps \<leftarrow> upd_opt (pv_passive p) v idx;
           ws \<leftarrow> upd_opt (m_weights p) v w;
           Some (p \<lparr> pv_passive := ps, m_weights := ws,
                     pv_free_list := butlast (pv_free_list p),
                     pv_heap := heap_insert v (pv_heap p) \<rparr>)
         }))"

subsection \<open>The engine \<^verbatim>\<open>hilbert_basis\<close>\<close>

record hilbert_basis =
  m_ineqs :: "numeral list list"
  m_basis :: "offset_t list"
  m_store :: "numeral list"
  m_free_list :: "offset_t list"
  m_eval :: "numeral list"
  m_active :: "offset_t list"
  m_zero :: "offset_t list"
  m_cancel :: bool
  m_index :: index
  m_passive :: passive_queue

definition hb_new :: hilbert_basis where
  "hb_new = \<lparr> m_ineqs = [], m_basis = [], m_store = [], m_free_list = [], m_eval = [],
              m_active = [], m_zero = [], m_cancel = False,
              m_index = index_new, m_passive = passive_reset \<rparr>"

definition reset :: "hilbert_basis \<Rightarrow> hilbert_basis" where
  "reset st = st \<lparr> m_ineqs := [], m_basis := [], m_store := [], m_free_list := [],
                  m_eval := [], m_active := [], m_passive := passive_reset, m_zero := [],
                  m_index := index_reset (m_index st), m_cancel := False \<rparr>"

text \<open>Modelled from the spec: \<^verbatim>\<open>cancel()\<close>, declared in the header
  \<^verbatim>\<open>hilbert_basis.h\<close>, requests termination: it sets the flag \<^verbatim>\<open>m_cancel\<close> that
  \<^verbatim>\<open>saturate\<close> polls.\<close>

definition cancel :: "hilbert_basis \<Rightarrow> hilbert_basis" where
  "cancel st = st \<lparr> m_cancel := True \<rparr>"

definition add_ge :: "numeral list \<Rightarrow> hilbert_basis \<Rightarrow> hilbert_basis" where
  "add_ge v st =
     (let st1 = (if m_ineqs st = [] then st \<lparr> m_index := index_init (length v) (m_index st) \<rparr>
                 else st)
      in st1 \<lparr> m_ineqs := m_ineqs st1 @ [v] \<rparr>)"

definition add_le :: "numeral list \<Rightarrow> hilbert_basis \<Rightarrow> hilbert_basis" where
  "add_le v st = add_ge (map uminus v) st"

definition add_eq :: "numeral list \<Rightarrow> hilbert_basis \<Rightarrow> hilbert_basis" where
  "add_eq v st = add_ge v (add_le v st)"

definition get_num_vars :: "hilbert_basis \<Rightarrow> nat" where
  "get_num_vars st = (if m_ineqs st = [] then 0 else length (last (m_ineqs st)))"

text \<open>\<^verbatim>\<open>vec(offs)\<close> is the pointer \<^verbatim>\<open>m_store.c_ptr() + offs\<close>; every user reads (or
  writes) the \<^verbatim>\<open>get_num_vars()\<close> numerals behind it. \<open>vec\<close> reads them all.\<close>

definition vec :: "hilbert_basis \<Rightarrow> offset_t \<Rightarrow> numeral list option" where
  "vec st offs =
     (if offs + get_num_vars st \<le> length (m_store st)
      then Some (take (get_num_vars st) (drop offs (m_store st))) else None)"

text \<open>Modelled from the spec: the accessor \<^verbatim>\<open>eval(offset_t)\<close>, declared in the header
  \<^verbatim>\<open>hilbert_basis.h\<close>. The evaluations are kept in the parallel array \<^verbatim>\<open>m_eval\<close>,
  indexed by \<open>offset / n\<close> (spec 4.4).\<close>

definition eval_at :: "hilbert_basis \<Rightarrow> offset_t \<Rightarrow> numeral option" where
  "eval_at st offs =
     (if get_num_vars st = 0 then None
      else nth_opt (m_eval st) (offs div get_num_vars st))"

definition set_eval :: "offset_t \<Rightarrow> numeral \<Rightarrow> hilbert_basis \<Rightarrow> hilbert_basis option" where
  "set_eval offs v st =
     (if get_num_vars st = 0 then None
      else do {
        ev \<leftarrow> upd_opt (m_eval st) (offs div get_num_vars st) v;
        Some (st \<lparr> m_eval := ev \<rparr>)
      })"

definition alloc_vector :: "hilbert_basis \<Rightarrow> offset_t \<times> hilbert_basis" where
  "alloc_vector st =
     (if m_free_list st = [] then
        (let idx = length (m_store st)
         in (idx, st \<lparr> m_store := m_store st @ replicate (get_num_vars st) 0,
                       m_eval := m_eval st @ [0] \<rparr>))
      else (last (m_free_list st), st \<lparr> m_free_list := butlast (m_free_list st) \<rparr>))"

fun set_value_loop :: "offset_t \<Rightarrow> numeral list \<Rightarrow> nat list \<Rightarrow> numeral list \<Rightarrow> numeral list option" where
  "set_value_loop offs v [] store = Some store"
| "set_value_loop offs v (i # ks) store =
     do {
       x \<leftarrow> nth_opt v i;
       store' \<leftarrow> upd_opt store (offs + i) x;
       set_value_loop offs v ks store'
     }"

definition set_value :: "offset_t \<Rightarrow> numeral list \<Rightarrow> hilbert_basis \<Rightarrow> hilbert_basis option" where
  "set_value offs v st =
     do {
       store \<leftarrow> set_value_loop offs v [0..<get_num_vars st] (m_store st);
       Some (st \<lparr> m_store := store \<rparr>)
     }"

fun init_basis_loop :: "nat list \<Rightarrow> hilbert_basis \<Rightarrow> hilbert_basis option" where
  "init_basis_loop [] st = Some st"
| "init_basis_loop (i # ks) st =
     (let num_vars = get_num_vars st;
          w = (replicate num_vars 0)[i := 1];
          (idx, st1) = alloc_vector st
      in do {
        st2 \<leftarrow> set_value idx w st1;
        init_basis_loop ks (st2 \<lparr> m_basis := m_basis st2 @ [idx] \<rparr>)
      })"

definition init_basis :: "hilbert_basis \<Rightarrow> hilbert_basis option" where
  "init_basis st =
     (let st0 = st \<lparr> m_basis := [], m_store := [], m_eval := [], m_free_list := [] \<rparr>
      in init_basis_loop [0..<get_num_vars st0] st0)"

text \<open>\<^verbatim>\<open>passive::get_weight\<close> sums the coordinates of the vector at \<open>idx\<close>;
  \<^verbatim>\<open>m_passive->insert(idx)\<close> is \<open>passive_insert\<close> with that weight.\<close>

definition get_weight :: "hilbert_basis \<Rightarrow> offset_t \<Rightarrow> numeral option" where
  "get_weight st idx = do { v \<leftarrow> vec st idx; Some (foldl (\<lambda>w x. w + x) 0 v) }"

definition insert_passive :: "offset_t \<Rightarrow> hilbert_basis \<Rightarrow> hilbert_basis option" where
  "insert_passive idx st =
     do {
       w \<leftarrow> get_weight st idx;
       p \<leftarrow> passive_insert idx w (m_passive st);
       Some (st \<lparr> m_passive := p \<rparr>)
     }"

fun eval_loop :: "numeral list \<Rightarrow> numeral list \<Rightarrow> nat list \<Rightarrow> numeral \<Rightarrow> numeral option" where
  "eval_loop val ineq [] result = Some result"
| "eval_loop val ineq (i # ks) result =
     do {
       a \<leftarrow> nth_opt val i;
       b \<leftarrow> nth_opt ineq i;
       eval_loop val ineq ks (result + a * b)
     }"

definition eval_ineq :: "hilbert_basis \<Rightarrow> numeral list \<Rightarrow> numeral list \<Rightarrow> numeral option" where
  "eval_ineq st val ineq = eval_loop val ineq [0..<get_num_vars st] 0"

definition get_sign :: "hilbert_basis \<Rightarrow> offset_t \<Rightarrow> sign_t option" where
  "get_sign st idx =
     do {
       e \<leftarrow> eval_at st idx;
       Some (if 0 < e then pos else if e < 0 then neg else zero)
     }"

text \<open>\<^verbatim>\<open>resolve\<close> writes through the pointer \<^verbatim>\<open>vec(r)\<close> while it reads through
  \<^verbatim>\<open>vec(i)\<close> and \<^verbatim>\<open>vec(j)\<close>, one coordinate after the other.\<close>

fun resolve_loop ::
  "offset_t \<Rightarrow> offset_t \<Rightarrow> offset_t \<Rightarrow> nat list \<Rightarrow> numeral list \<Rightarrow> numeral list option" where
  "resolve_loop i j r [] store = Some store"
| "resolve_loop i j r (k # ks) store =
     do {
       a \<leftarrow> nth_opt store (i + k);
       b \<leftarrow> nth_opt store (j + k);
       store' \<leftarrow> upd_opt store (r + k) (a + b);
       resolve_loop i j r ks store'
     }"

definition resolve :: "offset_t \<Rightarrow> offset_t \<Rightarrow> offset_t \<Rightarrow> hilbert_basis \<Rightarrow> hilbert_basis option" where
  "resolve i j r st =
     do {
       store \<leftarrow> resolve_loop i j r [0..<get_num_vars st] (m_store st);
       let st1 = st \<lparr> m_store := store \<rparr>;
       ei \<leftarrow> eval_at st1 i;
       ej \<leftarrow> eval_at st1 j;
       set_eval r (ei + ej) st1
     }"

definition recycle :: "offset_t \<Rightarrow> hilbert_basis \<Rightarrow> hilbert_basis option" where
  "recycle idx st =
     do {
       v \<leftarrow> vec st idx;
       e \<leftarrow> eval_at st idx;
       ix \<leftarrow> index_remove idx v e (m_index st);
       Some (st \<lparr> m_index := ix, m_free_list := m_free_list st @ [idx] \<rparr>)
     }"

text \<open>\<^verbatim>\<open>is_subsumed(idx)\<close> passes a default-constructed \<^verbatim>\<open>found_idx\<close> (offset 0) to
  \<^verbatim>\<open>find\<close>; it returns the flag, and the index as \<^verbatim>\<open>find\<close> left it.\<close>

definition is_subsumed :: "offset_t \<Rightarrow> hilbert_basis \<Rightarrow> (bool \<times> hilbert_basis) option" where
  "is_subsumed idx st =
     do {
       v \<leftarrow> vec st idx;
       e \<leftarrow> eval_at st idx;
       (found, found_idx, ix) \<leftarrow> index_find v e idx 0 (m_index st);
       Some (found, st \<lparr> m_index := ix \<rparr>)
     }"

definition add_goal :: "offset_t \<Rightarrow> hilbert_basis \<Rightarrow> hilbert_basis option" where
  "add_goal idx st =
     do {
       v \<leftarrow> vec st idx;
       e \<leftarrow> eval_at st idx;
       ix \<leftarrow> index_insert idx v e (m_index st);
       let st1 = st \<lparr> m_index := ix \<rparr>;
       if e = 0 then
         do {
           (sub, st2) \<leftarrow> is_subsumed idx st1;
           Some (if \<not> sub then st2 \<lparr> m_zero := m_zero st2 @ [idx] \<rparr> else st2)
         }
       else insert_passive idx st1
     }"

text \<open>The pairwise test \<^verbatim>\<open>is_subsumed(i, j)\<close> with its helper \<^verbatim>\<open>is_geq\<close>.\<close>

definition is_geq :: "hilbert_basis \<Rightarrow> numeral list \<Rightarrow> numeral list \<Rightarrow> bool" where
  "is_geq st v w = list_all (\<lambda>i. \<not> v ! i < w ! i) [0..<get_num_vars st]"

definition is_subsumed2 :: "hilbert_basis \<Rightarrow> offset_t \<Rightarrow> offset_t \<Rightarrow> bool option" where
  "is_subsumed2 st i j =
     do {
       v \<leftarrow> vec st i;
       w \<leftarrow> vec st j;
       n \<leftarrow> eval_at st i;
       m \<leftarrow> eval_at st j;
       Some (i \<noteq> j \<and> m \<le> n \<and> (\<not> m < 0 \<or> n = m) \<and> is_geq st v w)
     }"

subsection \<open>Saturation\<close>

text \<open>The first loop of \<^verbatim>\<open>saturate(ineq)\<close>: every basis vector is evaluated against the
  inequality and handed to \<^verbatim>\<open>add_goal\<close>; the flag is \<^verbatim>\<open>has_non_negative\<close>.\<close>

fun seed_loop ::
  "numeral list \<Rightarrow> offset_t list \<Rightarrow> bool \<times> hilbert_basis \<Rightarrow> (bool \<times> hilbert_basis) option" where
  "seed_loop ineq [] s = Some s"
| "seed_loop ineq (it # its) (has_non_negative, st) =
     do {
       v \<leftarrow> vec st it;
       n \<leftarrow> eval_ineq st v ineq;
       st1 \<leftarrow> set_eval it n st;
       st2 \<leftarrow> add_goal it st1;
       seed_loop ineq its (has_non_negative \<or> 0 \<le> n, st2)
     }"

text \<open>The inner \<^verbatim>\<open>for\<close> loop over \<^verbatim>\<open>m_active\<close>, which stops when the cancel flag is
  set.\<close>

fun active_loop :: "offset_t \<Rightarrow> offset_t list \<Rightarrow> hilbert_basis \<Rightarrow> hilbert_basis option" where
  "active_loop idx [] st = Some st"
| "active_loop idx (a # as) st =
     (if m_cancel st then Some st
      else do {
        si \<leftarrow> get_sign st idx;
        sa \<leftarrow> get_sign st a;
        st' \<leftarrow> (if si \<noteq> sa then
                  (let (j, st1) = alloc_vector st
                   in do { st2 \<leftarrow> resolve idx a j st1; add_goal j st2 })
                else Some st);
        active_loop idx as st'
      })"

text \<open>One turn of the \<^verbatim>\<open>while\<close> loop, after its tests of emptiness and
  cancellation.\<close>

definition drain_body :: "hilbert_basis \<Rightarrow> hilbert_basis option" where
  "drain_body st =
     do {
       (idx, p) \<leftarrow> passive_pop (m_passive st);
       let st1 = st \<lparr> m_passive := p \<rparr>;
       (sub, st2) \<leftarrow> is_subsumed idx st1;
       if sub then recycle idx st2
       else do {
         st3 \<leftarrow> active_loop idx (m_active st2) st2;
         Some (st3 \<lparr> m_active := m_active st3 @ [idx] \<rparr>)
       }
     }"

text \<open>The \<^verbatim>\<open>while\<close> loop may run forever as far as the code shows; \<open>None\<close> is also
  the value of a run that does not return.\<close>

partial_function (option) drain :: "hilbert_basis \<Rightarrow> (lbool \<times> hilbert_basis) option" where
  "drain st =
     (if passive_empty (m_passive st) then Some (l_true, st)
      else if m_cancel st then Some (l_undef, st)
      else do { st' \<leftarrow> drain_body st; drain st' })"

declare drain.simps [code]

text \<open>The code after the loop: the new basis is \<^verbatim>\<open>m_zero\<close> followed by the active
  offsets of positive evaluation; the other active offsets go to the free list.\<close>

fun finalize_loop :: "offset_t list \<Rightarrow> hilbert_basis \<Rightarrow> hilbert_basis option" where
  "finalize_loop [] st = Some st"
| "finalize_loop (idx # rest) st =
     do {
       e \<leftarrow> eval_at st idx;
       finalize_loop rest
         (if 0 < e then st \<lparr> m_basis := m_basis st @ [idx] \<rparr>
          else st \<lparr> m_free_list := m_free_list st @ [idx] \<rparr>)
     }"

definition finalize :: "hilbert_basis \<Rightarrow> hilbert_basis option" where
  "finalize st =
     do {
       st1 \<leftarrow> finalize_loop (m_active st) (st \<lparr> m_basis := m_zero st \<rparr>);
       Some (st1 \<lparr> m_active := [], m_passive := passive_reset, m_zero := [] \<rparr>)
     }"

definition round_reset :: "hilbert_basis \<Rightarrow> hilbert_basis" where
  "round_reset st = st \<lparr> m_active := [], m_passive := passive_reset, m_zero := [],
                        m_index := index_reset (m_index st) \<rparr>"

definition saturate_ineq :: "numeral list \<Rightarrow> hilbert_basis \<Rightarrow> (lbool \<times> hilbert_basis) option" where
  "saturate_ineq ineq st =
     (let st0 = round_reset st
      in do {
        (has_non_negative, st1) \<leftarrow> seed_loop ineq (m_basis st0) (False, st0);
        if \<not> has_non_negative then Some (l_false, st1)
        else do {
          (r, st2) \<leftarrow> drain st1;
          if r = l_undef then Some (l_undef, st2)
          else do { st3 \<leftarrow> finalize st2; Some (l_true, st3) }
        }
      })"

fun saturate_loop :: "numeral list list \<Rightarrow> hilbert_basis \<Rightarrow> (lbool \<times> hilbert_basis) option" where
  "saturate_loop [] st = Some (if m_cancel st then l_undef else l_true, st)"
| "saturate_loop (ineq # rest) st =
     (if m_cancel st then Some (l_undef, st)
      else do {
        (r, st') \<leftarrow> saturate_ineq ineq st;
        if r \<noteq> l_true then Some (r, st') else saturate_loop rest st'
      })"

definition saturate :: "hilbert_basis \<Rightarrow> (lbool \<times> hilbert_basis) option" where
  "saturate st = do { st0 \<leftarrow> init_basis st; saturate_loop (m_ineqs st0) st0 }"

text \<open>The basis iterator of the header applies \<^verbatim>\<open>vec\<close> to each offset of
  \<^verbatim>\<open>m_basis\<close> in turn.\<close>

definition get_basis :: "hilbert_basis \<Rightarrow> numeral list option list" where
  "get_basis st = map (vec st) (m_basis st)"

section \<open>Invariants and specification predicates\<close>

definition wm_inv :: "weight_map \<Rightarrow> bool" where
  "wm_inv wm \<longleftrightarrow>
     length (m_offsets wm) = length (m_u2r (wm_heap wm)) \<and>
     distinct (m_u2r (wm_heap wm)) \<and>
     (\<forall>r v. map_of (m_r2u (wm_heap wm)) r = Some v \<longrightarrow>
              v < length (m_u2r (wm_heap wm)) \<and> m_u2r (wm_heap wm) ! v = r) \<and>
     (\<forall>v < length (m_u2r (wm_heap wm)).
        map_of (m_r2u (wm_heap wm)) (m_u2r (wm_heap wm) ! v) = Some v) \<and>
     set (rh_heap (wm_heap wm)) =
       {v. v < length (m_u2r (wm_heap wm)) \<and> 0 \<le> m_u2r (wm_heap wm) ! v}"

definition wm_has :: "weight_map \<Rightarrow> offset_t \<Rightarrow> numeral \<Rightarrow> bool" where
  "wm_has wm offs e \<longleftrightarrow>
     (\<exists>v < length (m_offsets wm). offs \<in> set (m_offsets wm ! v) \<and> m_u2r (wm_heap wm) ! v = e)"

definition wm_uniq :: "weight_map \<Rightarrow> bool" where
  "wm_uniq wm \<longleftrightarrow>
     (\<forall>v < length (m_offsets wm). distinct (m_offsets wm ! v)) \<and>
     (\<forall>v < length (m_offsets wm). \<forall>v' < length (m_offsets wm). \<forall>offs.
        offs \<in> set (m_offsets wm ! v) \<and> offs \<in> set (m_offsets wm ! v') \<longrightarrow> v = v')"

definition seed_ok :: "numeral \<Rightarrow> numeral \<Rightarrow> bool" where
  "seed_ok w e \<longleftrightarrow> (if 0 < w then 0 < e \<and> e \<le> w else e = w)"

fun init_post :: "(offset_t \<Rightarrow> bool) \<Rightarrow> scan \<Rightarrow> scan \<Rightarrow> bool" where
  "init_post H (refs, fi, f) (refs', fi', f') \<longleftrightarrow>
        set refs' = set refs \<union> (\<lambda>offs. (offs, 0)) ` {offs. H offs} \<and>
        (f' \<longleftrightarrow> f \<or> (\<exists>offs. H offs)) \<and>
        (f' \<longrightarrow> (f \<and> fi' = fi) \<or> H fi')"

definition init_hit :: "weight_map \<Rightarrow> numeral \<Rightarrow> offset_t \<Rightarrow> nat list \<Rightarrow> offset_t \<Rightarrow> bool" where
  "init_hit wm w idx le offs \<longleftrightarrow>
     offs \<noteq> idx \<and> (\<exists>v \<in> set le. \<not> (m_u2r (wm_heap wm) ! v = 0 \<and> 0 < w) \<and>
                                  offs \<in> set (m_offsets wm ! v))"

fun upd_post :: "nat \<Rightarrow> (offset_t \<Rightarrow> bool) \<Rightarrow> scan \<Rightarrow> scan \<Rightarrow> bool" where
  "upd_post rnd H (refs, fi, f) (refs', fi', f') \<longleftrightarrow>
     (\<forall>offs n. map_of refs' offs = Some n \<longrightarrow>
        map_of refs offs = Some n \<or> (n = rnd + 1 \<and> map_of refs offs = Some rnd \<and> H offs)) \<and>
     (f' \<longrightarrow> (f \<and> fi' = fi) \<or> (H fi' \<and> map_of refs fi' = Some rnd))"

definition wm_same :: "weight_map \<Rightarrow> weight_map \<Rightarrow> bool" where
  "wm_same wm wm' \<longleftrightarrow>
     wm_inv wm' \<and> wm_has wm' = wm_has wm \<and> (wm_uniq wm \<longrightarrow> wm_uniq wm') \<and>
     m_u2r (wm_heap wm') = m_u2r (wm_heap wm)"

definition find_good ::
  "(offset_t \<Rightarrow> bool) \<Rightarrow> (nat \<Rightarrow> weight_map) \<Rightarrow> numeral list \<Rightarrow> offset_t \<Rightarrow> nat \<Rightarrow> offset_t \<Rightarrow> bool" where
  "find_good P Wf vs idx k offs \<longleftrightarrow>
     offs \<noteq> idx \<and> P offs \<and> (\<forall>j<k. \<exists>c. wm_has (Wf j) offs c \<and> c \<le> vs ! j)"

definition index_inv :: "nat \<Rightarrow> index \<Rightarrow> bool" where
  "index_inv n ix \<longleftrightarrow>
     length (m_values ix) = n \<and>
     (\<forall>i<n. wm_inv (m_values ix ! i) \<and> wm_uniq (m_values ix ! i)) \<and>
     wm_inv (m_weight ix) \<and> wm_uniq (m_weight ix) \<and> m_refs ix = []"

definition find_sound :: "index \<Rightarrow> numeral list \<Rightarrow> numeral \<Rightarrow> offset_t \<Rightarrow> offset_t \<Rightarrow> bool" where
  "find_sound ix vs weight idx w \<longleftrightarrow>
     w \<noteq> idx \<and> (\<exists>e. wm_has (m_weight ix) w e \<and> seed_ok weight e) \<and>
     (\<forall>i<length (m_values ix). \<exists>c. wm_has (m_values ix ! i) w c \<and> c \<le> vs ! i)"

definition index_same :: "index \<Rightarrow> index \<Rightarrow> bool" where
  "index_same ix ix' \<longleftrightarrow>
     length (m_values ix') = length (m_values ix) \<and>
     (\<forall>i<length (m_values ix). wm_has (m_values ix' ! i) = wm_has (m_values ix ! i) \<and>
        m_u2r (wm_heap (m_values ix' ! i)) = m_u2r (wm_heap (m_values ix ! i))) \<and>
     wm_has (m_weight ix') = wm_has (m_weight ix)"

text \<open>The engine's index agrees with the store when every entry of the evaluation map
  carries the evaluation stored for its offset and every entry of coordinate map \<open>i\<close>
  carries coordinate \<open>i\<close> of the vector at its offset.\<close>

definition index_agrees :: "hilbert_basis \<Rightarrow> bool" where
  "index_agrees st \<longleftrightarrow>
     index_inv (get_num_vars st) (m_index st) \<and>
     (\<forall>offs e. wm_has (m_weight (m_index st)) offs e \<longrightarrow> eval_at st offs = Some e) \<and>
     (\<forall>i<get_num_vars st. \<forall>offs c. wm_has (m_values (m_index st) ! i) offs c \<longrightarrow>
         (\<exists>v. vec st offs = Some v \<and> v ! i = c))"

text \<open>A weight map as six calls build it: offsets 0, 8, 2 and 6 with the values 1, 0, -1
  and 2.\<close>

definition wm_example :: weight_map where
  "wm_example =
     \<lparr> wm_heap = \<lparr> m_u2r = [1, 0, - 1, 2], m_r2u = [(2, 3), (- 1, 2), (0, 1), (1, 0)],
                    rh_heap = [0, 1, 3] \<rparr>,
       m_offsets = [[0], [8], [2], [6]], m_le = [] \<rparr>"

definition valid_offset :: "hilbert_basis \<Rightarrow> offset_t \<Rightarrow> bool" where
  "valid_offset st offs \<longleftrightarrow>
     0 < get_num_vars st \<and> get_num_vars st dvd offs \<and> offs < length (m_store st)"

definition store_shape :: "hilbert_basis \<Rightarrow> bool" where
  "store_shape st \<longleftrightarrow> length (m_store st) = get_num_vars st * length (m_eval st)"

definition passive_offs :: "passive_queue \<Rightarrow> offset_t list" where
  "passive_offs p = map (\<lambda>v. pv_passive p ! v) (pv_heap p)"

definition passive_wf :: "passive_queue \<Rightarrow> bool" where
  "passive_wf p \<longleftrightarrow>
     length (m_weights p) = length (pv_passive p) \<and>
     distinct (pv_heap p @ pv_free_list p) \<and>
     (\<forall>v \<in> set (pv_heap p @ pv_free_list p). v < length (pv_passive p))"

definition store_nonneg :: "hilbert_basis \<Rightarrow> bool" where
  "store_nonneg st \<longleftrightarrow> (\<forall>x \<in> set (m_store st). 0 \<le> x)"

text \<open>Two states agree on an offset when they hold the same vector and evaluation there.\<close>

definition same_at :: "hilbert_basis \<Rightarrow> hilbert_basis \<Rightarrow> offset_t \<Rightarrow> bool" where
  "same_at st st' offs \<longleftrightarrow>
     valid_offset st' offs \<and> vec st' offs = vec st offs \<and> eval_at st' offs = eval_at st offs"

definition passive_weights_ok :: "hilbert_basis \<Rightarrow> passive_queue \<Rightarrow> bool" where
  "passive_weights_ok st p \<longleftrightarrow>
     (\<forall>v \<in> set (pv_heap p). get_weight st (pv_passive p ! v) = Some (m_weights p ! v))"

definition indexed :: "index \<Rightarrow> offset_t \<Rightarrow> bool" where
  "indexed ix offs \<longleftrightarrow> (\<exists>e. wm_has (m_weight ix) offs e)"

section \<open>Properties of the containers\<close>

lemma nth_opt_Some [simp]: "nth_opt xs i = Some x \<longleftrightarrow> i < length xs \<and> x = xs ! i"
  by (auto simp: nth_opt_def)

lemma nth_opt_None [simp]: "nth_opt xs i = None \<longleftrightarrow> length xs \<le> i"
  by (auto simp: nth_opt_def)

lemma upd_opt_Some [simp]: "upd_opt xs i v = Some ys \<longleftrightarrow> i < length xs \<and> ys = xs[i := v]"
  by (auto simp: upd_opt_def)

lemma upd_opt_None [simp]: "upd_opt xs i v = None \<longleftrightarrow> length xs \<le> i"
  by (auto simp: upd_opt_def)

lemma nth_opt_in [simp]: "i < length xs \<Longrightarrow> nth_opt xs i = Some (xs ! i)"
  by (simp add: nth_opt_def)

lemma upd_opt_in [simp]: "i < length xs \<Longrightarrow> upd_opt xs i v = Some (xs[i := v])"
  by (simp add: upd_opt_def)

lemma in_set_remove1D: "x \<in> set (remove1 y xs) \<Longrightarrow> x \<in> set xs"
  by (meson notin_set_remove1)

lemma wm_inv_r2uD:
  "wm_inv wm \<Longrightarrow> map_of (m_r2u (wm_heap wm)) r = Some v \<Longrightarrow>
     v < length (m_u2r (wm_heap wm)) \<and> m_u2r (wm_heap wm) ! v = r"
  unfolding wm_inv_def by blast

lemma wm_inv_lenD: "wm_inv wm \<Longrightarrow> length (m_offsets wm) = length (m_u2r (wm_heap wm))"
  unfolding wm_inv_def by blast

lemma wm_inv_distinctD: "wm_inv wm \<Longrightarrow> distinct (m_u2r (wm_heap wm))"
  unfolding wm_inv_def by blast

lemma wm_uniqD:
  "wm_uniq wm \<Longrightarrow> v < length (m_offsets wm) \<Longrightarrow> v' < length (m_offsets wm) \<Longrightarrow>
     offs \<in> set (m_offsets wm ! v) \<Longrightarrow> offs \<in> set (m_offsets wm ! v') \<Longrightarrow> v = v'"
  unfolding wm_uniq_def by blast

lemma wm_uniq_distinctD:
  "wm_uniq wm \<Longrightarrow> v < length (m_offsets wm) \<Longrightarrow> distinct (m_offsets wm ! v)"
  unfolding wm_uniq_def by blast

lemma wm_inv_reset: "wm_inv wm_reset"
  by (simp add: wm_inv_def wm_reset_def rh_reset_def)

lemma wm_uniq_reset: "wm_uniq wm_reset"
  by (simp add: wm_uniq_def wm_reset_def)

lemma wm_has_reset [simp]: "\<not> wm_has wm_reset offs e"
  by (simp add: wm_has_def wm_reset_def)

lemma get_value_declared:
  assumes "wm_inv wm" "map_of (m_r2u (wm_heap wm)) w = Some val"
  shows "get_value w wm = (val, wm)"
  using assms by (simp add: get_value_def is_declared_def)

lemma get_value_inv:
  assumes "wm_inv wm" "get_value w wm = (val, wm1)"
  shows "wm_inv wm1"
    and "val < length (m_u2r (wm_heap wm1))"
    and "m_u2r (wm_heap wm1) ! val = w"
    and "map_of (m_r2u (wm_heap wm1)) w = Some val"
proof -
  show "wm_inv wm1"
  proof (cases "is_declared (wm_heap wm) w")
    case None
    then have nin: "w \<notin> set (m_u2r (wm_heap wm))"
      using assms(1) by (fastforce simp: wm_inv_def is_declared_def in_set_conv_nth)
    from None assms(2) have wm1: "wm1 = wm \<lparr> wm_heap := (if 0 \<le> w then rh_insert val (snd (rh_declare w (wm_heap wm))) else snd (rh_declare w (wm_heap wm))),
         m_offsets := m_offsets wm @ [[]] \<rparr>" and val: "val = length (m_u2r (wm_heap wm))"
      by (auto simp: get_value_def rh_declare_def Let_def split: prod.splits)
    show ?thesis using assms(1) nin unfolding wm1 val
      by (auto simp: wm_inv_def rh_declare_def rh_insert_def heap_insert_def Let_def nth_append less_Suc_eq)
  next
    case (Some a)
    then show ?thesis using assms by (simp add: get_value_def)
  qed
  then show "map_of (m_r2u (wm_heap wm1)) w = Some val"
    using assms by (auto simp: get_value_def is_declared_def rh_declare_def rh_insert_def Let_def split: option.splits if_splits)
  then show "val < length (m_u2r (wm_heap wm1))" "m_u2r (wm_heap wm1) ! val = w"
    using \<open>wm_inv wm1\<close> by (auto simp: wm_inv_def)
qed

lemma get_value_cases:
  assumes "wm_inv wm" "get_value w wm = (val, wm1)"
  shows "(wm1 = wm \<and> map_of (m_r2u (wm_heap wm)) w = Some val) \<or>
         (w \<notin> set (m_u2r (wm_heap wm)) \<and> val = length (m_u2r (wm_heap wm)) \<and>
          m_offsets wm1 = m_offsets wm @ [[]] \<and>
          m_u2r (wm_heap wm1) = m_u2r (wm_heap wm) @ [w])"
proof (cases "is_declared (wm_heap wm) w")
  case None
  then have nin: "w \<notin> set (m_u2r (wm_heap wm))"
    using assms(1) by (fastforce simp: wm_inv_def is_declared_def in_set_conv_nth)
  with None assms(2) show ?thesis
    by (auto simp: get_value_def rh_declare_def rh_insert_def Let_def split: prod.splits if_splits)
next
  case (Some a)
  then show ?thesis using assms by (simp add: get_value_def is_declared_def)
qed

lemma get_value_has:
  assumes "wm_inv wm" "get_value w wm = (val, wm1)"
  shows "wm_has wm1 offs e \<longleftrightarrow> wm_has wm offs e"
proof -
  from get_value_cases [OF assms] show ?thesis
  proof
    assume "wm1 = wm \<and> map_of (m_r2u (wm_heap wm)) w = Some val"
    then show ?thesis by simp
  next
    assume a: "w \<notin> set (m_u2r (wm_heap wm)) \<and> val = length (m_u2r (wm_heap wm)) \<and>
          m_offsets wm1 = m_offsets wm @ [[]] \<and>
          m_u2r (wm_heap wm1) = m_u2r (wm_heap wm) @ [w]"
    have l: "length (m_offsets wm) = length (m_u2r (wm_heap wm))"
      using assms(1) by (simp add: wm_inv_def)
    show ?thesis
    proof
      assume "wm_has wm1 offs e"
      then obtain v where "v < Suc (length (m_offsets wm))"
        "offs \<in> set ((m_offsets wm @ [[]]) ! v)" "(m_u2r (wm_heap wm) @ [w]) ! v = e"
        using a by (auto simp: wm_has_def)
      then have "v < length (m_offsets wm) \<and> offs \<in> set (m_offsets wm ! v) \<and> m_u2r (wm_heap wm) ! v = e"
        using l by (cases "v = length (m_offsets wm)") (auto simp: nth_append)
      then show "wm_has wm offs e" unfolding wm_has_def by blast
    next
      assume "wm_has wm offs e"
      then obtain v where "v < length (m_offsets wm)" "offs \<in> set (m_offsets wm ! v)"
        "m_u2r (wm_heap wm) ! v = e" by (auto simp: wm_has_def)
      then have "v < length (m_offsets wm1) \<and> offs \<in> set (m_offsets wm1 ! v) \<and> m_u2r (wm_heap wm1) ! v = e"
        using a l by (simp add: nth_append)
      then show "wm_has wm1 offs e" unfolding wm_has_def by blast
    qed
  qed
qed

lemma get_value_uniq:
  assumes "wm_inv wm" "get_value w wm = (val, wm1)" "wm_uniq wm"
  shows "wm_uniq wm1"
proof -
  from get_value_cases [OF assms(1,2)] show ?thesis
  proof
    assume "wm1 = wm \<and> map_of (m_r2u (wm_heap wm)) w = Some val"
    with assms(3) show ?thesis by simp
  next
    assume a: "w \<notin> set (m_u2r (wm_heap wm)) \<and> val = length (m_u2r (wm_heap wm)) \<and>
          m_offsets wm1 = m_offsets wm @ [[]] \<and>
          m_u2r (wm_heap wm1) = m_u2r (wm_heap wm) @ [w]"
    show ?thesis unfolding wm_uniq_def
    proof (intro conjI allI impI)
      fix v assume "v < length (m_offsets wm1)"
      then show "distinct (m_offsets wm1 ! v)"
        using a assms(3) by (auto simp: wm_uniq_def nth_append less_Suc_eq)
    next
      fix v v' offs
      assume "v < length (m_offsets wm1)" "v' < length (m_offsets wm1)"
        "offs \<in> set (m_offsets wm1 ! v) \<and> offs \<in> set (m_offsets wm1 ! v')"
      then have "v < length (m_offsets wm)" "v' < length (m_offsets wm)"
        "offs \<in> set (m_offsets wm ! v)" "offs \<in> set (m_offsets wm ! v')"
        using a by (auto simp: nth_append less_Suc_eq split: if_splits)
      then show "v = v'" using assms(3) unfolding wm_uniq_def by blast
    qed
  qed
qed

lemma get_value_vals:
  assumes "wm_inv wm" "get_value w wm = (val, wm1)"
  shows "set (m_u2r (wm_heap wm1)) = insert w (set (m_u2r (wm_heap wm)))"
proof -
  from get_value_cases [OF assms] show ?thesis
  proof
    assume a: "wm1 = wm \<and> map_of (m_r2u (wm_heap wm)) w = Some val"
    then have "val < length (m_u2r (wm_heap wm)) \<and> m_u2r (wm_heap wm) ! val = w"
      using wm_inv_r2uD [OF assms(1)] by blast
    then have "w \<in> set (m_u2r (wm_heap wm))" using nth_mem by blast
    with a show ?thesis by auto
  next
    assume "w \<notin> set (m_u2r (wm_heap wm)) \<and> val = length (m_u2r (wm_heap wm)) \<and>
          m_offsets wm1 = m_offsets wm @ [[]] \<and>
          m_u2r (wm_heap wm1) = m_u2r (wm_heap wm) @ [w]"
    then show ?thesis by auto
  qed
qed

lemma wm_inv_offsets_upd:
  "wm_inv wm \<Longrightarrow> length offs = length (m_offsets wm) \<Longrightarrow> wm_inv (wm \<lparr> m_offsets := offs \<rparr>)"
  by (simp add: wm_inv_def)

lemma wm_inv_le_upd [simp]: "wm_inv (wm \<lparr> m_le := le \<rparr>) = wm_inv wm"
  by (simp add: wm_inv_def)

lemma wm_has_le_upd [simp]: "wm_has (wm \<lparr> m_le := le \<rparr>) = wm_has wm"
  by (simp add: wm_has_def fun_eq_iff)

lemma wm_uniq_le_upd [simp]: "wm_uniq (wm \<lparr> m_le := le \<rparr>) = wm_uniq wm"
  by (simp add: wm_uniq_def)

lemma wm_insert_Some:
  assumes "wm_inv wm"
  shows "\<exists>wm'. wm_insert idx w wm = Some wm'"
proof -
  obtain val wm1 where g: "get_value w wm = (val, wm1)" by (cases "get_value w wm")
  from get_value_inv [OF assms g] have "val < length (m_offsets wm1)"
    by (simp add: wm_inv_def)
  with g show ?thesis by (simp add: wm_insert_def)
qed

lemma wm_insert_props:
  assumes "wm_inv wm" "wm_insert idx w wm = Some wm'"
  shows "wm_inv wm'"
    and "wm_has wm' offs e \<longleftrightarrow> wm_has wm offs e \<or> (offs = idx \<and> e = w)"
    and "set (m_u2r (wm_heap wm')) = insert w (set (m_u2r (wm_heap wm)))"
    and "wm_uniq wm \<Longrightarrow> \<forall>e. \<not> wm_has wm idx e \<Longrightarrow> wm_uniq wm'"
proof -
  obtain val wm1 where g: "get_value w wm = (val, wm1)" by (cases "get_value w wm")
  note gi = get_value_inv [OF assms(1) g]
  have len: "val < length (m_offsets wm1)" using gi by (simp add: wm_inv_def)
  have wm': "wm' = wm1 \<lparr> m_offsets := (m_offsets wm1)[val := m_offsets wm1 ! val @ [idx]] \<rparr>"
    using assms(2) g len by (simp add: wm_insert_def)
  show "wm_inv wm'" unfolding wm' using gi(1) by (simp add: wm_inv_def)
  have d: "distinct (m_u2r (wm_heap wm1))" and l: "length (m_offsets wm1) = length (m_u2r (wm_heap wm1))"
    using gi(1) by (auto simp: wm_inv_def)
  have "wm_has wm' offs e \<longleftrightarrow> wm_has wm1 offs e \<or> (offs = idx \<and> e = w)"
    unfolding wm' wm_has_def using len gi(3)
    by (auto simp: nth_list_update split: if_splits)
  then show "wm_has wm' offs e \<longleftrightarrow> wm_has wm offs e \<or> (offs = idx \<and> e = w)"
    by (simp add: get_value_has [OF assms(1) g])
  show "set (m_u2r (wm_heap wm')) = insert w (set (m_u2r (wm_heap wm)))"
    unfolding wm' using get_value_vals [OF assms(1) g] by simp
  assume u: "wm_uniq wm" and n: "\<forall>e. \<not> wm_has wm idx e"
  have u1: "wm_uniq wm1" by (rule get_value_uniq [OF assms(1) g u])
  have n1: "\<forall>v < length (m_offsets wm1). idx \<notin> set (m_offsets wm1 ! v)"
  proof (intro allI impI notI)
    fix v assume "v < length (m_offsets wm1)" "idx \<in> set (m_offsets wm1 ! v)"
    then have "wm_has wm1 idx (m_u2r (wm_heap wm1) ! v)" unfolding wm_has_def by blast
    with n get_value_has [OF assms(1) g] show False by simp
  qed
  show "wm_uniq wm'" unfolding wm' wm_uniq_def
  proof (intro conjI allI impI)
    fix v assume "v < length (m_offsets (wm1\<lparr>m_offsets := (m_offsets wm1)[val := m_offsets wm1 ! val @ [idx]]\<rparr>))"
    then show "distinct (m_offsets (wm1\<lparr>m_offsets := (m_offsets wm1)[val := m_offsets wm1 ! val @ [idx]]\<rparr>) ! v)"
      using u1 n1 len by (auto simp: wm_uniq_def nth_list_update)
  next
    fix v v' offs
    assume "v < length (m_offsets (wm1\<lparr>m_offsets := (m_offsets wm1)[val := m_offsets wm1 ! val @ [idx]]\<rparr>))"
      "v' < length (m_offsets (wm1\<lparr>m_offsets := (m_offsets wm1)[val := m_offsets wm1 ! val @ [idx]]\<rparr>))"
      "offs \<in> set (m_offsets (wm1\<lparr>m_offsets := (m_offsets wm1)[val := m_offsets wm1 ! val @ [idx]]\<rparr>) ! v) \<and>
       offs \<in> set (m_offsets (wm1\<lparr>m_offsets := (m_offsets wm1)[val := m_offsets wm1 ! val @ [idx]]\<rparr>) ! v')"
    then show "v = v'"
      using n1 len
      by (auto simp: nth_list_update split: if_splits dest: wm_uniqD [OF u1])
  qed
qed

lemma wm_remove_Some:
  assumes "wm_inv wm"
  shows "\<exists>wm'. wm_remove idx w wm = Some wm'"
proof -
  obtain val wm1 where g: "get_value w wm = (val, wm1)" by (cases "get_value w wm")
  from get_value_inv [OF assms g] have "val < length (m_offsets wm1)"
    by (simp add: wm_inv_def)
  with g show ?thesis by (simp add: wm_remove_def)
qed

lemma wm_remove_props:
  assumes "wm_inv wm" "wm_remove idx w wm = Some wm'"
  shows "wm_inv wm'"
    and "wm_uniq wm \<Longrightarrow> wm_has wm' offs e \<longleftrightarrow> wm_has wm offs e \<and> \<not> (offs = idx \<and> e = w)"
    and "set (m_u2r (wm_heap wm')) = insert w (set (m_u2r (wm_heap wm)))"
    and "wm_uniq wm \<Longrightarrow> wm_uniq wm'"
proof -
  obtain val wm1 where g: "get_value w wm = (val, wm1)" by (cases "get_value w wm")
  note gi = get_value_inv [OF assms(1) g]
  have len: "val < length (m_offsets wm1)" using gi by (simp add: wm_inv_def)
  have wm': "wm' = wm1 \<lparr> m_offsets := (m_offsets wm1)[val := remove1 idx (m_offsets wm1 ! val)] \<rparr>"
    using assms(2) g len by (simp add: wm_remove_def)
  show "wm_inv wm'" unfolding wm' using gi(1) by (simp add: wm_inv_def)
  show "set (m_u2r (wm_heap wm')) = insert w (set (m_u2r (wm_heap wm)))"
    unfolding wm' using get_value_vals [OF assms(1) g] by simp
  have d: "distinct (m_u2r (wm_heap wm1))" and l: "length (m_offsets wm1) = length (m_u2r (wm_heap wm1))"
    using gi(1) by (auto simp: wm_inv_def)
  {
    assume u: "wm_uniq wm"
    have u1: "wm_uniq wm1" by (rule get_value_uniq [OF assms(1) g u])
    have dv: "distinct (m_offsets wm1 ! val)" using u1 len by (simp add: wm_uniq_def)
    have "wm_has wm' offs e \<longleftrightarrow> wm_has wm1 offs e \<and> \<not> (offs = idx \<and> e = w)"
    proof
      assume "wm_has wm' offs e"
      then obtain v where v: "v < length (m_offsets wm1)"
        "offs \<in> set ((m_offsets wm1)[val := remove1 idx (m_offsets wm1 ! val)] ! v)"
        "m_u2r (wm_heap wm1) ! v = e"
        unfolding wm' wm_has_def by auto
      show "wm_has wm1 offs e \<and> \<not> (offs = idx \<and> e = w)"
      proof (cases "v = val")
        case True
        with v len dv have "offs \<in> set (m_offsets wm1 ! val)" "offs \<noteq> idx"
          by (auto simp: nth_list_update)
        with v True show ?thesis by (auto simp: wm_has_def)
      next
        case False
        with v have "offs \<in> set (m_offsets wm1 ! v)" by simp
        moreover have "e \<noteq> w" using False v(1,3) gi(2,3) d l
          by (auto simp: nth_eq_iff_index_eq)
        ultimately show ?thesis using v by (auto simp: wm_has_def)
      qed
    next
      assume a: "wm_has wm1 offs e \<and> \<not> (offs = idx \<and> e = w)"
      then obtain v where v: "v < length (m_offsets wm1)" "offs \<in> set (m_offsets wm1 ! v)"
        "m_u2r (wm_heap wm1) ! v = e" by (auto simp: wm_has_def)
      show "wm_has wm' offs e"
      proof (cases "v = val")
        case True
        with v gi(3) a have "offs \<noteq> idx" by auto
        with v True len show ?thesis unfolding wm' wm_has_def
          by (auto intro!: exI [of _ val])
      next
        case False
        with v show ?thesis unfolding wm' wm_has_def
          by (auto intro!: exI [of _ v])
      qed
    qed
    then show "wm_has wm' offs e \<longleftrightarrow> wm_has wm offs e \<and> \<not> (offs = idx \<and> e = w)"
      by (simp add: get_value_has [OF assms(1) g])
    show "wm_uniq wm'" unfolding wm' wm_uniq_def
    proof (intro conjI allI impI)
      fix v assume "v < length (m_offsets (wm1\<lparr>m_offsets := (m_offsets wm1)[val := remove1 idx (m_offsets wm1 ! val)]\<rparr>))"
      then show "distinct (m_offsets (wm1\<lparr>m_offsets := (m_offsets wm1)[val := remove1 idx (m_offsets wm1 ! val)]\<rparr>) ! v)"
        using u1 len by (auto simp: wm_uniq_def nth_list_update)
    next
      fix v v' offs
      assume "v < length (m_offsets (wm1\<lparr>m_offsets := (m_offsets wm1)[val := remove1 idx (m_offsets wm1 ! val)]\<rparr>))"
        "v' < length (m_offsets (wm1\<lparr>m_offsets := (m_offsets wm1)[val := remove1 idx (m_offsets wm1 ! val)]\<rparr>))"
        "offs \<in> set (m_offsets (wm1\<lparr>m_offsets := (m_offsets wm1)[val := remove1 idx (m_offsets wm1 ! val)]\<rparr>) ! v) \<and>
         offs \<in> set (m_offsets (wm1\<lparr>m_offsets := (m_offsets wm1)[val := remove1 idx (m_offsets wm1 ! val)]\<rparr>) ! v')"
      then have "v < length (m_offsets wm1)" "v' < length (m_offsets wm1)"
        "offs \<in> set (m_offsets wm1 ! v)" "offs \<in> set (m_offsets wm1 ! v')"
        using len by (auto simp: nth_list_update dest: in_set_remove1D split: if_splits)
      then show "v = v'" using u1 unfolding wm_uniq_def by blast
    qed
  }
qed

lemma rh_find_le_set:
  assumes "wm_inv wm"
  shows "set (rh_find_le (wm_heap wm) val) =
     {v. v < length (m_u2r (wm_heap wm)) \<and> 0 \<le> m_u2r (wm_heap wm) ! v \<and>
         m_u2r (wm_heap wm) ! v \<le> m_u2r (wm_heap wm) ! val}"
  using assms
  by (auto simp: rh_find_le_def heap_find_le_def rational_lt_def wm_inv_def)

lemma init_post_refl: "(\<And>offs. \<not> H offs) \<Longrightarrow> init_post H s s"
  by (cases s) auto

lemma init_post_trans:
  assumes "init_post H1 s s1" "init_post H2 s1 s2" "\<And>offs. H offs \<longleftrightarrow> H1 offs \<or> H2 offs"
  shows "init_post H s s2"
proof -
  obtain refs fi f where s: "s = (refs, fi, f)" by (cases s)
  obtain refs1 fi1 f1 where s1: "s1 = (refs1, fi1, f1)" by (cases s1)
  obtain refs2 fi2 f2 where s2: "s2 = (refs2, fi2, f2)" by (cases s2)
  have a: "set refs1 = set refs \<union> (\<lambda>offs. (offs, 0)) ` {offs. H1 offs}"
    "f1 \<longleftrightarrow> f \<or> (\<exists>offs. H1 offs)" "f1 \<longrightarrow> (f \<and> fi1 = fi) \<or> H1 fi1"
    using assms(1) unfolding s s1 by simp_all
  have b: "set refs2 = set refs1 \<union> (\<lambda>offs. (offs, 0)) ` {offs. H2 offs}"
    "f2 \<longleftrightarrow> f1 \<or> (\<exists>offs. H2 offs)" "f2 \<longrightarrow> (f1 \<and> fi2 = fi1) \<or> H2 fi2"
    using assms(2) unfolding s1 s2 by simp_all
  have HH: "{offs. H offs} = {offs. H1 offs} \<union> {offs. H2 offs}"
    using assms(3) by blast
  have "set refs2 = set refs \<union> (\<lambda>offs. (offs, 0)) ` {offs. H offs}"
    unfolding b(1) a(1) HH by blast
  moreover have "f2 \<longleftrightarrow> f \<or> (\<exists>offs. H offs)"
    unfolding b(2) a(2) using assms(3) by blast
  moreover have "f2 \<longrightarrow> (f \<and> fi2 = fi) \<or> H fi2"
    using a(2,3) b(2,3) assms(3) by blast
  ultimately show ?thesis unfolding s s2 by simp
qed

lemma init_post_step:
  "a \<noteq> idx \<Longrightarrow> init_post (\<lambda>offs. offs = a) (refs, fi, f) ((a, 0) # refs, a, True)"
  by auto

lemma init_scan_post:
  "init_post (\<lambda>offs. offs \<in> set offsets \<and> offs \<noteq> idx) s (init_scan idx offsets s)"
proof (induction offsets arbitrary: s)
  case Nil
  show ?case by (simp add: init_scan_def init_post_refl)
next
  case (Cons a offsets)
  obtain refs fi f where s: "s = (refs, fi, f)" by (cases s)
  show ?case
  proof (cases "a = idx")
    case True
    then have e: "init_scan idx (a # offsets) s = init_scan idx offsets s"
      by (simp add: init_scan_def s)
    have "(\<lambda>offs. offs \<in> set (a # offsets) \<and> offs \<noteq> idx) = (\<lambda>offs. offs \<in> set offsets \<and> offs \<noteq> idx)"
      using True by (intro ext) auto
    with Cons.IH [of s] e show ?thesis by simp
  next
    case False
    then have e: "init_scan idx (a # offsets) (refs, fi, f) = init_scan idx offsets ((a, 0) # refs, a, True)"
      by (simp add: init_scan_def)
    show ?thesis unfolding s e
      by (rule init_post_trans [OF init_post_step [OF False] Cons.IH]) (use False in auto)
  qed
qed

lemma init_hit_Nil [simp]: "\<not> init_hit wm w idx [] offs"
  by (simp add: init_hit_def)

lemma init_hit_Cons:
  "init_hit wm w idx (v # le) offs \<longleftrightarrow>
     (\<not> (m_u2r (wm_heap wm) ! v = 0 \<and> 0 < w) \<and> offs \<in> set (m_offsets wm ! v) \<and> offs \<noteq> idx)
     \<or> init_hit wm w idx le offs"
  by (auto simp: init_hit_def)

lemma init_loop_post:
  assumes "\<forall>v \<in> set le. v < length (m_u2r (wm_heap wm)) \<and> v < length (m_offsets wm)"
  shows "\<exists>s'. init_loop wm w idx le s = Some s' \<and> init_post (init_hit wm w idx le) s s'"
  using assms
proof (induction le arbitrary: s)
  case Nil
  then show ?case by (simp add: init_post_refl)
next
  case (Cons v le)
  have v: "v < length (m_u2r (wm_heap wm))" "v < length (m_offsets wm)"
    and le: "\<forall>v \<in> set le. v < length (m_u2r (wm_heap wm)) \<and> v < length (m_offsets wm)"
    using Cons.prems by auto
  show ?case
  proof (cases "m_u2r (wm_heap wm) ! v = 0 \<and> 0 < w")
    case True
    from Cons.IH [OF le, of s] obtain s' where
      r: "init_loop wm w idx le s = Some s'" and p: "init_post (init_hit wm w idx le) s s'"
      by blast
    have "init_loop wm w idx (v # le) s = Some s'"
      using True v r by simp
    moreover have "init_hit wm w idx (v # le) = init_hit wm w idx le"
      using True by (auto simp: init_hit_Cons fun_eq_iff)
    ultimately show ?thesis using p by simp
  next
    case False
    define s1 where "s1 = init_scan idx (m_offsets wm ! v) s"
    from Cons.IH [OF le, of s1] obtain s' where
      r: "init_loop wm w idx le s1 = Some s'" and p: "init_post (init_hit wm w idx le) s1 s'"
      by blast
    have "init_loop wm w idx (v # le) s = Some s'"
      using False v r by (auto simp: s1_def)
    moreover have "init_post (init_hit wm w idx (v # le)) s s'"
      by (rule init_post_trans [OF init_scan_post [of "m_offsets wm ! v" idx s, folded s1_def] p])
         (use False in \<open>auto simp: init_hit_Cons\<close>)
    ultimately show ?thesis by blast
  qed
qed

lemma init_find_seed_aux:
  assumes "wm_inv wm"
  shows "\<exists>found refs' fi' wm'. init_find refs w idx fi wm = Some (found, refs', fi', wm') \<and>
     init_post (\<lambda>offs. offs \<noteq> idx \<and> (\<exists>e. wm_has wm offs e \<and> seed_ok w e))
       (refs, fi, False) (refs', fi', found) \<and>
     wm_inv wm' \<and> wm_has wm' = wm_has wm \<and> (wm_uniq wm \<longrightarrow> wm_uniq wm') \<and>
     set (m_u2r (wm_heap wm')) = insert w (set (m_u2r (wm_heap wm)))"
proof -
  obtain val wm1 where g: "get_value w wm = (val, wm1)" by (cases "get_value w wm")
  note gi = get_value_inv [OF assms g]
  define le where "le = (if 0 < w then rh_find_le (wm_heap wm1) val else [val])"
  define wm2 where "wm2 = wm1 \<lparr> m_le := le \<rparr>"
  have l: "length (m_offsets wm1) = length (m_u2r (wm_heap wm1))"
    by (rule wm_inv_lenD [OF gi(1)])
  have le_set: "set le = (if 0 < w then {v. v < length (m_u2r (wm_heap wm1)) \<and> 0 \<le> m_u2r (wm_heap wm1) ! v \<and>
         m_u2r (wm_heap wm1) ! v \<le> w} else {val})"
    unfolding le_def using rh_find_le_set [OF gi(1), of val] gi(3) by simp
  have bound: "\<forall>v \<in> set le. v < length (m_u2r (wm_heap wm2)) \<and> v < length (m_offsets wm2)"
    unfolding le_set wm2_def using gi(2) l by (auto split: if_splits)
  from init_loop_post [OF bound, of w idx "(refs, fi, False)"] obtain s' where
    r: "init_loop wm2 w idx le (refs, fi, False) = Some s'"
    and p: "init_post (init_hit wm2 w idx le) (refs, fi, False) s'"
    by blast
  obtain refs' fi' f' where s': "s' = (refs', fi', f')" by (cases s')
  have key: "init_hit wm2 w idx le = (\<lambda>offs. offs \<noteq> idx \<and> (\<exists>e. wm_has wm offs e \<and> seed_ok w e))"
  proof (rule ext)
    fix offs
    have "(\<exists>v \<in> set le. \<not> (m_u2r (wm_heap wm1) ! v = 0 \<and> 0 < w) \<and> offs \<in> set (m_offsets wm1 ! v))
       \<longleftrightarrow> (\<exists>e. wm_has wm1 offs e \<and> seed_ok w e)"
    proof
      assume "\<exists>v \<in> set le. \<not> (m_u2r (wm_heap wm1) ! v = 0 \<and> 0 < w) \<and> offs \<in> set (m_offsets wm1 ! v)"
      then obtain v where v: "v \<in> set le" "\<not> (m_u2r (wm_heap wm1) ! v = 0 \<and> 0 < w)"
        "offs \<in> set (m_offsets wm1 ! v)" by auto
      have "v < length (m_offsets wm1)" using v(1) bound by (simp add: wm2_def)
      then have "wm_has wm1 offs (m_u2r (wm_heap wm1) ! v)" using v(3) unfolding wm_has_def by blast
      moreover have "seed_ok w (m_u2r (wm_heap wm1) ! v)"
        using v(1,2) gi(3) unfolding le_set seed_ok_def by (auto split: if_splits)
      ultimately show "\<exists>e. wm_has wm1 offs e \<and> seed_ok w e" by blast
    next
      assume "\<exists>e. wm_has wm1 offs e \<and> seed_ok w e"
      then obtain v where v: "v < length (m_offsets wm1)" "offs \<in> set (m_offsets wm1 ! v)"
        "seed_ok w (m_u2r (wm_heap wm1) ! v)" by (auto simp: wm_has_def)
      have "v \<in> set le"
      proof (cases "0 < w")
        case True
        with v(1,3) l show ?thesis unfolding le_set seed_ok_def by auto
      next
        case False
        with v(3) have "m_u2r (wm_heap wm1) ! v = m_u2r (wm_heap wm1) ! val"
          using gi(3) by (simp add: seed_ok_def)
        then have "v = val" using wm_inv_distinctD [OF gi(1)] v(1) gi(2) l
          by (simp add: nth_eq_iff_index_eq)
        with False show ?thesis unfolding le_set by simp
      qed
      moreover have "\<not> (m_u2r (wm_heap wm1) ! v = 0 \<and> 0 < w)"
        using v(3) by (auto simp: seed_ok_def)
      ultimately show "\<exists>v \<in> set le. \<not> (m_u2r (wm_heap wm1) ! v = 0 \<and> 0 < w) \<and> offs \<in> set (m_offsets wm1 ! v)"
        using v(2) by blast
    qed
    then show "init_hit wm2 w idx le offs \<longleftrightarrow> offs \<noteq> idx \<and> (\<exists>e. wm_has wm offs e \<and> seed_ok w e)"
      unfolding init_hit_def by (simp add: get_value_has [OF assms g] wm2_def)
  qed
  have e: "init_find refs w idx fi wm = Some (f', refs', fi', wm2)"
    using g r by (simp add: init_find_def le_def wm2_def Let_def s')
  have "wm_has wm2 = wm_has wm"
    by (simp add: wm2_def fun_eq_iff get_value_has [OF assms g])
  moreover have "wm_inv wm2" using gi(1) by (simp add: wm2_def)
  moreover have "wm_uniq wm \<longrightarrow> wm_uniq wm2"
    using get_value_uniq [OF assms g] by (simp add: wm2_def)
  moreover have "set (m_u2r (wm_heap wm2)) = insert w (set (m_u2r (wm_heap wm)))"
    using get_value_vals [OF assms g] by (simp add: wm2_def)
  ultimately show ?thesis using e p unfolding key s' by blast
qed

lemma upd_post_refl: "upd_post rnd H s s"
  by (cases s) auto

lemma upd_post_trans:
  assumes "upd_post rnd H1 s s1" "upd_post rnd H2 s1 s2"
    "\<And>offs. H1 offs \<Longrightarrow> H offs" "\<And>offs. H2 offs \<Longrightarrow> H offs"
  shows "upd_post rnd H s s2"
proof -
  obtain refs fi f where s: "s = (refs, fi, f)" by (cases s)
  obtain refs1 fi1 f1 where s1: "s1 = (refs1, fi1, f1)" by (cases s1)
  obtain refs2 fi2 f2 where s2: "s2 = (refs2, fi2, f2)" by (cases s2)
  have a: "\<And>offs n. map_of refs1 offs = Some n \<Longrightarrow>
        map_of refs offs = Some n \<or> (n = rnd + 1 \<and> map_of refs offs = Some rnd \<and> H1 offs)"
    "f1 \<longrightarrow> (f \<and> fi1 = fi) \<or> (H1 fi1 \<and> map_of refs fi1 = Some rnd)"
    using assms(1) unfolding s s1 by simp_all
  have b: "\<And>offs n. map_of refs2 offs = Some n \<Longrightarrow>
        map_of refs1 offs = Some n \<or> (n = rnd + 1 \<and> map_of refs1 offs = Some rnd \<and> H2 offs)"
    "f2 \<longrightarrow> (f1 \<and> fi2 = fi1) \<or> (H2 fi2 \<and> map_of refs1 fi2 = Some rnd)"
    using assms(2) unfolding s1 s2 by simp_all
  have r: "\<And>offs. map_of refs1 offs = Some rnd \<Longrightarrow> map_of refs offs = Some rnd"
    using a(1) by fastforce
  have "\<forall>offs n. map_of refs2 offs = Some n \<longrightarrow>
        map_of refs offs = Some n \<or> (n = rnd + 1 \<and> map_of refs offs = Some rnd \<and> H offs)"
  proof (intro allI impI)
    fix offs n assume "map_of refs2 offs = Some n"
    from b(1) [OF this] show "map_of refs offs = Some n \<or> (n = rnd + 1 \<and> map_of refs offs = Some rnd \<and> H offs)"
    proof
      assume "map_of refs1 offs = Some n"
      from a(1) [OF this] show ?thesis using assms(3) by blast
    next
      assume "n = rnd + 1 \<and> map_of refs1 offs = Some rnd \<and> H2 offs"
      then show ?thesis using r assms(4) by blast
    qed
  qed
  moreover have "f2 \<longrightarrow> (f \<and> fi2 = fi) \<or> (H fi2 \<and> map_of refs fi2 = Some rnd)"
    using a(2) b(2) r assms(3,4) by blast
  ultimately show ?thesis unfolding s s2 by simp
qed

lemma upd_post_step:
  "map_of refs a = Some rnd \<Longrightarrow> H a \<Longrightarrow>
     upd_post rnd H (refs, fi, f) ((a, rnd + 1) # refs, a, True)"
  by auto

lemma update_scan_post:
  "upd_post rnd (\<lambda>offs. offs \<in> set offsets \<and> offs \<noteq> idx) s (update_scan rnd idx offsets s)"
proof (induction offsets arbitrary: s)
  case Nil
  show ?case by (simp add: update_scan_def upd_post_refl)
next
  case (Cons a offsets)
  obtain refs fi f where s: "s = (refs, fi, f)" by (cases s)
  show ?case
  proof (cases "a \<noteq> idx \<and> map_of refs a = Some rnd")
    case False
    then have e: "update_scan rnd idx (a # offsets) s = update_scan rnd idx offsets s"
      by (auto simp: update_scan_def s)
    show ?thesis unfolding e
      by (rule upd_post_trans [OF upd_post_refl Cons.IH]) auto
  next
    case True
    then have e: "update_scan rnd idx (a # offsets) (refs, fi, f)
        = update_scan rnd idx offsets ((a, rnd + 1) # refs, a, True)"
      by (simp add: update_scan_def)
    have st: "upd_post rnd (\<lambda>offs. offs = a) (refs, fi, f) ((a, rnd + 1) # refs, a, True)"
      using True by (intro upd_post_step) auto
    show ?thesis unfolding s e
      by (rule upd_post_trans [OF st Cons.IH]) (use True in auto)
  qed
qed

lemma update_loop_post:
  assumes "\<forall>v \<in> set le. v < length (m_offsets wm)"
  shows "\<exists>s'. update_loop wm rnd idx le s = Some s' \<and>
     upd_post rnd (\<lambda>offs. offs \<noteq> idx \<and> (\<exists>v \<in> set le. offs \<in> set (m_offsets wm ! v))) s s'"
  using assms
proof (induction le arbitrary: s)
  case Nil
  then show ?case by (simp add: upd_post_refl)
next
  case (Cons v le)
  have v: "v < length (m_offsets wm)" and le: "\<forall>v \<in> set le. v < length (m_offsets wm)"
    using Cons.prems by auto
  define s1 where "s1 = update_scan rnd idx (m_offsets wm ! v) s"
  from Cons.IH [OF le, of s1] obtain s' where
    r: "update_loop wm rnd idx le s1 = Some s'"
    and p: "upd_post rnd (\<lambda>offs. offs \<noteq> idx \<and> (\<exists>v \<in> set le. offs \<in> set (m_offsets wm ! v))) s1 s'"
    by blast
  have "update_loop wm rnd idx (v # le) s = Some s'"
    using v r by (simp add: s1_def)
  moreover have "upd_post rnd (\<lambda>offs. offs \<noteq> idx \<and> (\<exists>u \<in> set (v # le). offs \<in> set (m_offsets wm ! u))) s s'"
    by (rule upd_post_trans [OF update_scan_post [of rnd "m_offsets wm ! v" idx s, folded s1_def] p]) auto
  ultimately show ?case by blast
qed

lemma update_find_post:
  assumes "wm_inv wm" "w \<in> set (m_u2r (wm_heap wm))"
  shows "\<exists>found refs' fi' wm'. update_find refs rnd w idx fi wm = Some (found, refs', fi', wm') \<and>
     upd_post rnd (\<lambda>offs. offs \<noteq> idx \<and> (\<exists>c. wm_has wm offs c \<and> c \<le> w))
       (refs, fi, False) (refs', fi', found) \<and>
     wm_inv wm' \<and> wm_has wm' = wm_has wm \<and> (wm_uniq wm \<longrightarrow> wm_uniq wm') \<and>
     m_u2r (wm_heap wm') = m_u2r (wm_heap wm)"
proof -
  from assms(2) obtain val where val: "val < length (m_u2r (wm_heap wm))" "m_u2r (wm_heap wm) ! val = w"
    by (auto simp: in_set_conv_nth)
  then have m: "map_of (m_r2u (wm_heap wm)) w = Some val"
    using assms(1) unfolding wm_inv_def by blast
  define le where "le = rh_find_le (wm_heap wm) val"
  define wm1 where "wm1 = wm \<lparr> m_le := le \<rparr>"
  have l: "length (m_offsets wm) = length (m_u2r (wm_heap wm))"
    by (rule wm_inv_lenD [OF assms(1)])
  have le_set: "set le = {v. v < length (m_u2r (wm_heap wm)) \<and> 0 \<le> m_u2r (wm_heap wm) ! v \<and>
         m_u2r (wm_heap wm) ! v \<le> w}"
    unfolding le_def using rh_find_le_set [OF assms(1), of val] val(2) by simp
  have bound: "\<forall>v \<in> set le. v < length (m_offsets wm1)"
    unfolding le_set wm1_def using l by auto
  from update_loop_post [OF bound, of rnd idx "(refs, fi, False)"] obtain s' where
    r: "update_loop wm1 rnd idx le (refs, fi, False) = Some s'"
    and p: "upd_post rnd (\<lambda>offs. offs \<noteq> idx \<and> (\<exists>v \<in> set le. offs \<in> set (m_offsets wm1 ! v)))
              (refs, fi, False) s'"
    by blast
  obtain refs' fi' f' where s': "s' = (refs', fi', f')" by (cases s')
  have e: "update_find refs rnd w idx fi wm = Some (f', refs', fi', wm1)"
    using m r by (simp add: update_find_def rh_find_le_num_def le_def wm1_def s')
  have "upd_post rnd (\<lambda>offs. offs \<noteq> idx \<and> (\<exists>c. wm_has wm offs c \<and> c \<le> w)) (refs, fi, False) s'"
  proof (rule upd_post_trans [OF upd_post_refl [where H = "\<lambda>_. False"] p])
    fix offs :: nat assume False
    then show "offs \<noteq> idx \<and> (\<exists>c. wm_has wm offs c \<and> c \<le> w)" by simp
  next
    fix offs assume "offs \<noteq> idx \<and> (\<exists>v \<in> set le. offs \<in> set (m_offsets wm1 ! v))"
    then obtain v where v: "offs \<noteq> idx" "v \<in> set le" "offs \<in> set (m_offsets wm ! v)"
      by (auto simp: wm1_def)
    then have "v < length (m_offsets wm)" "m_u2r (wm_heap wm) ! v \<le> w"
      using l unfolding le_set by auto
    then have "wm_has wm offs (m_u2r (wm_heap wm) ! v) \<and> m_u2r (wm_heap wm) ! v \<le> w"
      using v(3) unfolding wm_has_def by blast
    then show "offs \<noteq> idx \<and> (\<exists>c. wm_has wm offs c \<and> c \<le> w)" using v(1) by blast
  qed
  moreover have "wm_inv wm1" "wm_has wm1 = wm_has wm" "wm_uniq wm \<longrightarrow> wm_uniq wm1"
    "m_u2r (wm_heap wm1) = m_u2r (wm_heap wm)"
    using assms(1) by (simp_all add: wm1_def)
  ultimately show ?thesis using e unfolding s' by blast
qed

lemma update_find_sound:
  assumes "wm_inv wm" "update_find refs rnd w idx fi wm = Some (found, refs', fi', wm')"
  shows "upd_post rnd (\<lambda>offs. offs \<noteq> idx \<and> (\<exists>c. wm_has wm offs c \<and> c \<le> w))
       (refs, fi, False) (refs', fi', found)"
    and "wm_inv wm'" and "wm_has wm' = wm_has wm" and "wm_uniq wm \<Longrightarrow> wm_uniq wm'"
    and "m_u2r (wm_heap wm') = m_u2r (wm_heap wm)"
    and "w \<in> set (m_u2r (wm_heap wm))"
proof -
  from assms(2) obtain val where "map_of (m_r2u (wm_heap wm)) w = Some val"
    by (auto simp: update_find_def rh_find_le_num_def split: option.splits)
  from wm_inv_r2uD [OF assms(1) this] show d: "w \<in> set (m_u2r (wm_heap wm))"
    using nth_mem by blast
  from update_find_post [OF assms(1) d, of refs rnd idx fi] assms(2)
  show "upd_post rnd (\<lambda>offs. offs \<noteq> idx \<and> (\<exists>c. wm_has wm offs c \<and> c \<le> w))
       (refs, fi, False) (refs', fi', found)"
    and "wm_inv wm'" and "wm_has wm' = wm_has wm" and "wm_uniq wm \<Longrightarrow> wm_uniq wm'"
    and "m_u2r (wm_heap wm') = m_u2r (wm_heap wm)"
    by auto
qed

lemma wm_same_refl: "wm_inv wm \<Longrightarrow> wm_same wm wm"
  by (simp add: wm_same_def)

lemma find_good_Suc:
  "find_good P Wf vs idx k offs \<Longrightarrow> \<exists>c. wm_has (Wf k) offs c \<and> c \<le> vs ! k \<Longrightarrow>
     find_good P Wf vs idx (Suc k) offs"
  by (auto simp: find_good_def less_Suc_eq)

lemma find_loop_sound:
  assumes "find_loop vs idx i wms (found, refs, fi) = Some ((found', refs', fi'), wms')"
    and "\<forall>j<length wms. wm_inv (wms ! j) \<and> wm_has (wms ! j) = wm_has (Wf (i + j))"
    and "\<forall>offs n. map_of refs offs = Some n \<longrightarrow> n \<le> i \<and> find_good P Wf vs idx n offs"
    and "found \<longrightarrow> find_good P Wf vs idx i fi"
  shows "(found' \<longrightarrow> find_good P Wf vs idx (i + length wms) fi') \<and>
         length wms' = length wms \<and> (\<forall>j<length wms. wm_same (wms ! j) (wms' ! j))"
  using assms
proof (induction wms arbitrary: i found refs fi wms')
  case Nil
  then show ?case by simp
next
  case (Cons wm wms)
  have wm: "wm_inv wm" "wm_has wm = wm_has (Wf i)"
    using Cons.prems(2) by (auto dest: spec [of _ 0])
  have wms: "\<forall>j<length wms. wm_inv (wms ! j) \<and> wm_has (wms ! j) = wm_has (Wf (Suc i + j))"
    using Cons.prems(2) by (auto dest: spec [of _ "Suc j" for j])
  show ?case
  proof (cases found)
    case False
    with Cons.prems(1) have "found' = False" "wms' = wm # wms" by simp_all
    then show ?thesis using Cons.prems(2) by (auto simp: wm_same_refl)
  next
    case True
    with Cons.prems(1) obtain f1 refs1 fi1 wm1 s2 wms2 where
      i: "i < length vs"
      and u: "update_find refs i (vs ! i) idx fi wm = Some (f1, refs1, fi1, wm1)"
      and r: "find_loop vs idx (Suc i) wms (f1, refs1, fi1) = Some (s2, wms2)"
      and res: "s2 = (found', refs', fi')" "wms' = wm1 # wms2"
      by (auto simp: bind_eq_Some_conv split: prod.splits)
    note us = update_find_sound [OF wm(1) u]
    have p1: "\<And>offs n. map_of refs1 offs = Some n \<Longrightarrow>
        map_of refs offs = Some n \<or> (n = i + 1 \<and> map_of refs offs = Some i \<and>
           offs \<noteq> idx \<and> (\<exists>c. wm_has wm offs c \<and> c \<le> vs ! i))"
      and p2: "f1 \<longrightarrow> (fi1 \<noteq> idx \<and> (\<exists>c. wm_has wm fi1 c \<and> c \<le> vs ! i)) \<and> map_of refs fi1 = Some i"
      using us(1) by auto
    have inv1: "\<forall>offs n. map_of refs1 offs = Some n \<longrightarrow> n \<le> Suc i \<and> find_good P Wf vs idx n offs"
    proof (intro allI impI)
      fix offs n assume "map_of refs1 offs = Some n"
      from p1 [OF this] show "n \<le> Suc i \<and> find_good P Wf vs idx n offs"
      proof
        assume "map_of refs offs = Some n"
        with Cons.prems(3) show ?thesis by (auto simp: le_Suc_eq)
      next
        assume a: "n = i + 1 \<and> map_of refs offs = Some i \<and>
           offs \<noteq> idx \<and> (\<exists>c. wm_has wm offs c \<and> c \<le> vs ! i)"
        then have "find_good P Wf vs idx i offs" using Cons.prems(3) by blast
        then have "find_good P Wf vs idx (Suc i) offs"
          using a wm(2) by (intro find_good_Suc) auto
        with a show ?thesis by simp
      qed
    qed
    have f1: "f1 \<longrightarrow> find_good P Wf vs idx (Suc i) fi1"
    proof
      assume f1
      with p2 have a: "\<exists>c. wm_has wm fi1 c \<and> c \<le> vs ! i" "map_of refs fi1 = Some i" by auto
      then have "find_good P Wf vs idx i fi1" using Cons.prems(3) by blast
      then show "find_good P Wf vs idx (Suc i) fi1"
        using a wm(2) by (intro find_good_Suc) auto
    qed
    from Cons.IH [OF r [unfolded res] wms inv1 f1]
    have "(found' \<longrightarrow> find_good P Wf vs idx (Suc i + length wms) fi') \<and>
         length wms2 = length wms \<and> (\<forall>j<length wms. wm_same (wms ! j) (wms2 ! j))" .
    moreover have "wm_same wm wm1" using us by (simp add: wm_same_def)
    ultimately show ?thesis unfolding res
      by (auto simp: nth_Cons split: nat.splits)
  qed
qed

lemma find_loop_total:
  assumes "\<forall>j<length wms. wm_inv (wms ! j) \<and> i + j < length vs \<and>
             vs ! (i + j) \<in> set (m_u2r (wm_heap (wms ! j)))"
  shows "\<exists>r. find_loop vs idx i wms (found, refs, fi) = Some r"
  using assms
proof (induction wms arbitrary: i found refs fi)
  case Nil
  then show ?case by simp
next
  case (Cons wm wms)
  have wm: "wm_inv wm" "i < length vs" "vs ! i \<in> set (m_u2r (wm_heap wm))"
    using Cons.prems by (auto dest: spec [of _ 0])
  have wms: "\<forall>j<length wms. wm_inv (wms ! j) \<and> Suc i + j < length vs \<and>
             vs ! (Suc i + j) \<in> set (m_u2r (wm_heap (wms ! j)))"
    using Cons.prems by (auto dest: spec [of _ "Suc j" for j])
  show ?case
  proof (cases found)
    case False
    then have "find_loop vs idx i (wm # wms) (found, refs, fi) = Some ((found, refs, fi), wm # wms)"
      by simp
    then show ?thesis by blast
  next
    case True
    from update_find_post [OF wm(1,3), of refs i idx fi] obtain f1 refs1 fi1 wm1 where
      u: "update_find refs i (vs ! i) idx fi wm = Some (f1, refs1, fi1, wm1)" by blast
    from Cons.IH [OF wms, of f1 refs1 fi1] obtain r where
      "find_loop vs idx (Suc i) wms (f1, refs1, fi1) = Some r" by blast
    moreover obtain x y z q where "r = ((x, y, z), q)" by (metis prod.exhaust)
    ultimately show ?thesis using u True wm(2) by simp
  qed
qed

lemma index_find_sound:
  assumes "index_inv n ix" "index_find vs weight idx fi0 ix = Some (found, w, ix')"
  shows "found \<Longrightarrow> find_sound ix vs weight idx w"
    and "index_inv n ix'"
    and "index_same ix ix'"
    and "set (m_u2r (wm_heap (m_weight ix'))) = insert weight (set (m_u2r (wm_heap (m_weight ix))))"
proof -
  have wi: "wm_inv (m_weight ix)" and r0: "m_refs ix = []" and len: "length (m_values ix) = n"
    and vi: "\<forall>i<n. wm_inv (m_values ix ! i) \<and> wm_uniq (m_values ix ! i)"
    and wu: "wm_uniq (m_weight ix)"
    using assms(1) by (auto simp: index_inv_def)
  define P where "P = (\<lambda>offs. \<exists>e. wm_has (m_weight ix) offs e \<and> seed_ok weight e)"
  from init_find_seed_aux [OF wi, of "[]" weight idx fi0] obtain f1 refs1 fi1 w1 where
    i: "init_find [] weight idx fi0 (m_weight ix) = Some (f1, refs1, fi1, w1)"
    and ip: "init_post (\<lambda>offs. offs \<noteq> idx \<and> P offs) ([], fi0, False) (refs1, fi1, f1)"
    and w1: "wm_inv w1" "wm_has w1 = wm_has (m_weight ix)" "wm_uniq (m_weight ix) \<longrightarrow> wm_uniq w1"
      "set (m_u2r (wm_heap w1)) = insert weight (set (m_u2r (wm_heap (m_weight ix))))"
    unfolding P_def by blast
  from assms(2) i r0 obtain refs' wms where
    fl: "find_loop vs idx 0 (m_values ix) (f1, refs1, fi1) = Some ((found, refs', w), wms)"
    and ix': "ix' = ix \<lparr> m_values := wms, m_weight := w1, m_refs := [] \<rparr>"
    by (auto simp: index_find_def bind_eq_Some_conv split: prod.splits)
  have a2: "\<forall>j<length (m_values ix). wm_inv (m_values ix ! j) \<and>
      wm_has (m_values ix ! j) = wm_has ((\<lambda>j. m_values ix ! j) (0 + j))"
    using vi len by simp
  have a3: "\<forall>offs k. map_of refs1 offs = Some k \<longrightarrow>
      k \<le> 0 \<and> find_good P (\<lambda>j. m_values ix ! j) vs idx k offs"
  proof (intro allI impI)
    fix offs k assume "map_of refs1 offs = Some k"
    then have "(offs, k) \<in> set refs1" by (rule map_of_SomeD)
    with ip show "k \<le> 0 \<and> find_good P (\<lambda>j. m_values ix ! j) vs idx k offs"
      by (auto simp: find_good_def)
  qed
  have a4: "f1 \<longrightarrow> find_good P (\<lambda>j. m_values ix ! j) vs idx 0 fi1"
    using ip by (auto simp: find_good_def)
  from find_loop_sound [OF fl a2 a3 a4]
  have g: "found \<longrightarrow> find_good P (\<lambda>j. m_values ix ! j) vs idx (length (m_values ix)) w"
    and l: "length wms = length (m_values ix)"
    and s: "\<forall>j<length (m_values ix). wm_same (m_values ix ! j) (wms ! j)"
    by simp_all
  show "found \<Longrightarrow> find_sound ix vs weight idx w"
    using g by (simp add: find_sound_def find_good_def P_def)
  show "index_inv n ix'"
    unfolding ix' index_inv_def using l len s vi w1 wu by (auto simp: wm_same_def)
  show "index_same ix ix'"
    unfolding ix' index_same_def using l s w1 by (auto simp: wm_same_def)
  show "set (m_u2r (wm_heap (m_weight ix'))) = insert weight (set (m_u2r (wm_heap (m_weight ix))))"
    unfolding ix' using w1 by simp
qed

lemma index_find_total:
  assumes "index_inv n ix"
    and "\<forall>i<n. i < length vs \<and> vs ! i \<in> set (m_u2r (wm_heap (m_values ix ! i)))"
  shows "\<exists>r. index_find vs weight idx fi0 ix = Some r"
proof -
  have wi: "wm_inv (m_weight ix)" and r0: "m_refs ix = []" and len: "length (m_values ix) = n"
    and vi: "\<forall>i<n. wm_inv (m_values ix ! i) \<and> wm_uniq (m_values ix ! i)"
    using assms(1) by (auto simp: index_inv_def)
  from init_find_seed_aux [OF wi, of "[]" weight idx fi0] obtain f1 refs1 fi1 w1 where
    i: "init_find [] weight idx fi0 (m_weight ix) = Some (f1, refs1, fi1, w1)"
    by blast
  have "\<forall>j<length (m_values ix). wm_inv (m_values ix ! j) \<and> 0 + j < length vs \<and>
             vs ! (0 + j) \<in> set (m_u2r (wm_heap (m_values ix ! j)))"
    using vi len assms(2) by simp
  from find_loop_total [OF this, of idx f1 refs1 fi1] obtain r where
    "find_loop vs idx 0 (m_values ix) (f1, refs1, fi1) = Some r" by blast
  moreover obtain x y z q where "r = ((x, y, z), q)" by (metis prod.exhaust)
  ultimately show ?thesis using i r0
    by (simp add: index_find_def)
qed

lemma wm_example_value:
  "wm_insert 0 1 wm_reset \<bind> wm_insert 4 0 \<bind> wm_insert 2 (- 1) \<bind> wm_insert 6 2
     \<bind> wm_remove 4 0 \<bind> wm_insert 8 0 = Some wm_example"
  by code_simp

lemma wm_inv_example: "wm_inv wm_example"
proof -
  from wm_example_value obtain a b c d e where
    s: "wm_insert 0 1 wm_reset = Some a" "wm_insert 4 0 a = Some b" "wm_insert 2 (- 1) b = Some c"
    "wm_insert 6 2 c = Some d" "wm_remove 4 0 d = Some e" "wm_insert 8 0 e = Some wm_example"
    by (auto simp: bind_eq_Some_conv)
  note a = wm_insert_props(1) [OF wm_inv_reset s(1)]
  note b = wm_insert_props(1) [OF a s(2)]
  note c = wm_insert_props(1) [OF b s(3)]
  note d = wm_insert_props(1) [OF c s(4)]
  note e = wm_remove_props(1) [OF d s(5)]
  show ?thesis by (rule wm_insert_props(1) [OF e s(6)])
qed

lemma vec_Some:
  "vec st offs = Some v \<longleftrightarrow>
     offs + get_num_vars st \<le> length (m_store st) \<and>
     v = take (get_num_vars st) (drop offs (m_store st))"
  by (auto simp: vec_def)

lemma vec_nth:
  "vec st offs = Some v \<Longrightarrow> i < get_num_vars st \<Longrightarrow> v ! i = m_store st ! (offs + i)"
  by (auto simp: vec_def split: if_splits)

lemma vec_length: "vec st offs = Some v \<Longrightarrow> length v = get_num_vars st"
  by (auto simp: vec_def split: if_splits)

lemma is_geq_iff:
  "is_geq st v w \<longleftrightarrow> (\<forall>i<get_num_vars st. w ! i \<le> v ! i)"
  by (auto simp: is_geq_def list_all_iff not_less)

section \<open>Properties of the store, the queue and the index\<close>

lemma get_num_vars_upd [simp]:
  "get_num_vars (st \<lparr> m_basis := b \<rparr>) = get_num_vars st"
  "get_num_vars (st \<lparr> m_store := s \<rparr>) = get_num_vars st"
  "get_num_vars (st \<lparr> m_free_list := f \<rparr>) = get_num_vars st"
  "get_num_vars (st \<lparr> m_eval := e \<rparr>) = get_num_vars st"
  "get_num_vars (st \<lparr> m_active := a \<rparr>) = get_num_vars st"
  "get_num_vars (st \<lparr> m_zero := z \<rparr>) = get_num_vars st"
  "get_num_vars (st \<lparr> m_cancel := c \<rparr>) = get_num_vars st"
  "get_num_vars (st \<lparr> m_index := ix \<rparr>) = get_num_vars st"
  "get_num_vars (st \<lparr> m_passive := p \<rparr>) = get_num_vars st"
  by (simp_all add: get_num_vars_def)

lemma vec_upd [simp]:
  "vec (st \<lparr> m_basis := b \<rparr>) = vec st"
  "vec (st \<lparr> m_free_list := f \<rparr>) = vec st"
  "vec (st \<lparr> m_eval := e \<rparr>) = vec st"
  "vec (st \<lparr> m_active := a \<rparr>) = vec st"
  "vec (st \<lparr> m_zero := z \<rparr>) = vec st"
  "vec (st \<lparr> m_cancel := c \<rparr>) = vec st"
  "vec (st \<lparr> m_index := ix \<rparr>) = vec st"
  "vec (st \<lparr> m_passive := p \<rparr>) = vec st"
  by (simp_all add: vec_def fun_eq_iff)

lemma eval_at_upd [simp]:
  "eval_at (st \<lparr> m_basis := b \<rparr>) = eval_at st"
  "eval_at (st \<lparr> m_free_list := f \<rparr>) = eval_at st"
  "eval_at (st \<lparr> m_store := s \<rparr>) = eval_at st"
  "eval_at (st \<lparr> m_active := a \<rparr>) = eval_at st"
  "eval_at (st \<lparr> m_zero := z \<rparr>) = eval_at st"
  "eval_at (st \<lparr> m_cancel := c \<rparr>) = eval_at st"
  "eval_at (st \<lparr> m_index := ix \<rparr>) = eval_at st"
  "eval_at (st \<lparr> m_passive := p \<rparr>) = eval_at st"
  by (simp_all add: eval_at_def fun_eq_iff)

lemma get_weight_upd [simp]:
  "get_weight (st \<lparr> m_basis := b \<rparr>) = get_weight st"
  "get_weight (st \<lparr> m_free_list := f \<rparr>) = get_weight st"
  "get_weight (st \<lparr> m_eval := e \<rparr>) = get_weight st"
  "get_weight (st \<lparr> m_active := a \<rparr>) = get_weight st"
  "get_weight (st \<lparr> m_zero := z \<rparr>) = get_weight st"
  "get_weight (st \<lparr> m_cancel := c \<rparr>) = get_weight st"
  "get_weight (st \<lparr> m_index := ix \<rparr>) = get_weight st"
  "get_weight (st \<lparr> m_passive := p \<rparr>) = get_weight st"
  by (simp_all add: get_weight_def fun_eq_iff)

lemma valid_offset_upd [simp]:
  "valid_offset (st \<lparr> m_basis := b \<rparr>) = valid_offset st"
  "valid_offset (st \<lparr> m_free_list := f \<rparr>) = valid_offset st"
  "valid_offset (st \<lparr> m_eval := e \<rparr>) = valid_offset st"
  "valid_offset (st \<lparr> m_active := a \<rparr>) = valid_offset st"
  "valid_offset (st \<lparr> m_zero := z \<rparr>) = valid_offset st"
  "valid_offset (st \<lparr> m_cancel := c \<rparr>) = valid_offset st"
  "valid_offset (st \<lparr> m_index := ix \<rparr>) = valid_offset st"
  "valid_offset (st \<lparr> m_passive := p \<rparr>) = valid_offset st"
  by (simp_all add: valid_offset_def fun_eq_iff)

lemma store_shape_upd [simp]:
  "store_shape (st \<lparr> m_basis := b \<rparr>) = store_shape st"
  "store_shape (st \<lparr> m_free_list := f \<rparr>) = store_shape st"
  "store_shape (st \<lparr> m_active := a \<rparr>) = store_shape st"
  "store_shape (st \<lparr> m_zero := z \<rparr>) = store_shape st"
  "store_shape (st \<lparr> m_cancel := c \<rparr>) = store_shape st"
  "store_shape (st \<lparr> m_index := ix \<rparr>) = store_shape st"
  "store_shape (st \<lparr> m_passive := p \<rparr>) = store_shape st"
  by (simp_all add: store_shape_def)

text \<open>Arithmetic of aligned offsets.\<close>

lemma aligned_region_disjoint:
  fixes n :: nat
  assumes "n dvd a" "n dvd b" "a \<noteq> b" "i < n" "k < n"
  shows "a + i \<noteq> b + k"
proof
  assume e: "a + i = b + k"
  from assms(1,2) obtain x y where xy: "a = n * x" "b = n * y" by (auto simp: dvd_def)
  have "(a + i) mod n = i" "(b + k) mod n = k" using assms(4,5) xy by simp_all
  with e have "i = k" by simp
  with e have "a = b" by simp
  with assms(3) show False by simp
qed

lemma aligned_div_neq:
  fixes n :: nat
  assumes "n dvd a" "n dvd b" "a \<noteq> b"
  shows "a div n \<noteq> b div n"
  using assms by (auto simp: dvd_def)

lemma valid_offset_bound:
  assumes "store_shape st" "valid_offset st offs"
  shows "offs + get_num_vars st \<le> length (m_store st)" "offs div get_num_vars st < length (m_eval st)"
proof -
  let ?n = "get_num_vars st"
  from assms(2) obtain x where x: "offs = ?n * x" and n: "0 < ?n" and l: "offs < length (m_store st)"
    by (auto simp: valid_offset_def dvd_def)
  from l assms(1) have "?n * x < ?n * length (m_eval st)" by (simp add: x store_shape_def)
  then have xl: "x < length (m_eval st)" using n by simp
  then have "Suc x \<le> length (m_eval st)" by simp
  then have "?n * Suc x \<le> ?n * length (m_eval st)" using mult_le_mono2 by blast
  then show "offs + ?n \<le> length (m_store st)" using assms(1) by (simp add: x store_shape_def)
  show "offs div ?n < length (m_eval st)" using xl n by (simp add: x)
qed

lemma valid_offset_defined:
  assumes "store_shape st" "valid_offset st offs"
  shows "\<exists>v e. vec st offs = Some v \<and> eval_at st offs = Some e"
  using valid_offset_bound [OF assms] assms(2)
  by (auto simp: vec_def eval_at_def valid_offset_def)

lemma alloc_vector_fields:
  assumes "alloc_vector st = (j, st')"
  shows "m_ineqs st' = m_ineqs st" "m_basis st' = m_basis st" "m_active st' = m_active st"
    "m_zero st' = m_zero st" "m_cancel st' = m_cancel st" "m_index st' = m_index st"
    "m_passive st' = m_passive st" "get_num_vars st' = get_num_vars st"
  using assms by (auto simp: alloc_vector_def Let_def get_num_vars_def split: if_splits)

lemma alloc_vector_props:
  assumes "alloc_vector st = (j, st')" "store_shape st" "0 < get_num_vars st"
    and "\<forall>offs \<in> set (m_free_list st). valid_offset st offs"
  shows "store_shape st'" and "valid_offset st' j"
    and "\<And>offs. valid_offset st offs \<Longrightarrow> same_at st st' offs"
    and "m_free_list st = m_free_list st' @ [j] \<or>
         (m_free_list st = [] \<and> m_free_list st' = [] \<and> \<not> valid_offset st j)"
    and "store_nonneg st \<Longrightarrow> store_nonneg st'"
proof -
  let ?n = "get_num_vars st"
  show "store_shape st'" using assms(1,2)
    by (auto simp: alloc_vector_def Let_def store_shape_def get_num_vars_def split: if_splits)
  show "valid_offset st' j"
  proof (cases "m_free_list st = []")
    case True
    then have "j = length (m_store st)" "m_store st' = m_store st @ replicate ?n 0"
      using assms(1) by (auto simp: alloc_vector_def Let_def)
    then show ?thesis using assms(2,3) alloc_vector_fields(8) [OF assms(1)]
      by (simp add: valid_offset_def store_shape_def)
  next
    case False
    then have "j = last (m_free_list st)" "m_store st' = m_store st"
      using assms(1) by (auto simp: alloc_vector_def Let_def)
    moreover have "valid_offset st (last (m_free_list st))" using assms(4) False by simp
    ultimately show ?thesis using alloc_vector_fields(8) [OF assms(1)]
      by (simp add: valid_offset_def)
  qed
  show "m_free_list st = m_free_list st' @ [j] \<or>
         (m_free_list st = [] \<and> m_free_list st' = [] \<and> \<not> valid_offset st j)"
    using assms(1) by (auto simp: alloc_vector_def Let_def valid_offset_def split: if_splits)
  show "store_nonneg st \<Longrightarrow> store_nonneg st'"
    using assms(1) by (auto simp: alloc_vector_def Let_def store_nonneg_def split: if_splits)
  fix offs assume v: "valid_offset st offs"
  note b = valid_offset_bound [OF assms(2) v]
  show "same_at st st' offs"
  proof (cases "m_free_list st = []")
    case True
    then have s: "m_store st' = m_store st @ replicate ?n 0" "m_eval st' = m_eval st @ [0]"
      using assms(1) by (auto simp: alloc_vector_def Let_def)
    show ?thesis using v b alloc_vector_fields(8) [OF assms(1)] unfolding same_at_def
      by (auto simp: s valid_offset_def vec_def eval_at_def nth_append)
  next
    case False
    then have s: "m_store st' = m_store st" "m_eval st' = m_eval st"
      using assms(1) by (auto simp: alloc_vector_def Let_def)
    show ?thesis using v alloc_vector_fields(8) [OF assms(1)] unfolding same_at_def
      by (auto simp: s valid_offset_def vec_def eval_at_def)
  qed
qed

lemma resolve_loop_nonneg:
  assumes "resolve_loop i j r ks store = Some store'" "\<forall>x \<in> set store. 0 \<le> x"
  shows "\<forall>x \<in> set store'. (0::rat) \<le> x"
  using assms
proof (induction ks arbitrary: store)
  case Nil
  then show ?case by simp
next
  case (Cons k ks)
  from Cons.prems(1) obtain store1 where
    b: "i + k < length store" "j + k < length store" "r + k < length store"
    and s1: "store1 = store[r + k := store ! (i + k) + store ! (j + k)]"
    and r: "resolve_loop i j r ks store1 = Some store'"
    by (auto simp: bind_eq_Some_conv)
  have "0 \<le> store ! (i + k) + store ! (j + k)"
    using b Cons.prems(2) by simp
  then have "\<forall>x \<in> set store1. 0 \<le> x"
    unfolding s1 using Cons.prems(2) set_update_subset_insert [of store "r + k"]
    by (metis insert_iff subsetD)
  from Cons.IH [OF r this] show ?case .
qed

lemma resolve_loop_props:
  assumes "\<forall>k \<in> set ks. i + k < length store \<and> j + k < length store \<and> r + k < length store"
    and "\<forall>k \<in> set ks. \<forall>k' \<in> set ks. r + k \<noteq> i + k' \<and> r + k \<noteq> j + k'"
  shows "\<exists>store'. resolve_loop i j r ks store = Some store' \<and> length store' = length store \<and>
     (\<forall>k \<in> set ks. store' ! (r + k) = store ! (i + k) + store ! (j + k)) \<and>
     (\<forall>p. (\<forall>k \<in> set ks. p \<noteq> r + k) \<longrightarrow> store' ! p = store ! p)"
  using assms
proof (induction ks arbitrary: store)
  case Nil
  then show ?case by simp
next
  case (Cons k ks)
  define store1 where "store1 = store[r + k := store ! (i + k) + store ! (j + k)]"
  have b: "i + k < length store" "j + k < length store" "r + k < length store"
    using Cons.prems(1) by auto
  have a1: "\<forall>k \<in> set ks. i + k < length store1 \<and> j + k < length store1 \<and> r + k < length store1"
    using Cons.prems(1) by (simp add: store1_def)
  have a2: "\<forall>k \<in> set ks. \<forall>k' \<in> set ks. r + k \<noteq> i + k' \<and> r + k \<noteq> j + k'"
    using Cons.prems(2) by simp
  from Cons.IH [OF a1 a2] obtain store' where
    r: "resolve_loop i j r ks store1 = Some store'" and l: "length store' = length store1"
    and w: "\<forall>k \<in> set ks. store' ! (r + k) = store1 ! (i + k) + store1 ! (j + k)"
    and u: "\<forall>p. (\<forall>k \<in> set ks. p \<noteq> r + k) \<longrightarrow> store' ! p = store1 ! p"
    by blast
  have rd: "\<And>k'. k' \<in> set (k # ks) \<Longrightarrow> store1 ! (i + k') = store ! (i + k') \<and> store1 ! (j + k') = store ! (j + k')"
  proof -
    fix k' assume "k' \<in> set (k # ks)"
    with Cons.prems(2) have "r + k \<noteq> i + k'" "r + k \<noteq> j + k'" by auto
    then show "store1 ! (i + k') = store ! (i + k') \<and> store1 ! (j + k') = store ! (j + k')"
      by (simp add: store1_def)
  qed
  have e: "resolve_loop i j r (k # ks) store = Some store'"
    using b r by (simp add: store1_def)
  have "\<forall>k' \<in> set (k # ks). store' ! (r + k') = store ! (i + k') + store ! (j + k')"
  proof
    fix k' assume k': "k' \<in> set (k # ks)"
    show "store' ! (r + k') = store ! (i + k') + store ! (j + k')"
    proof (cases "k' \<in> set ks")
      case True
      with w rd [OF k'] show ?thesis by simp
    next
      case False
      with k' have kk: "k' = k" by simp
      have "\<forall>k'' \<in> set ks. r + k \<noteq> r + k''" using False kk by auto
      with u have "store' ! (r + k) = store1 ! (r + k)" by blast
      also have "\<dots> = store ! (i + k) + store ! (j + k)" using b by (simp add: store1_def)
      finally show ?thesis by (simp add: kk)
    qed
  qed
  moreover have "\<forall>p. (\<forall>k' \<in> set (k # ks). p \<noteq> r + k') \<longrightarrow> store' ! p = store ! p"
    using u by (auto simp: store1_def)
  ultimately show ?case using e l by (auto simp: store1_def)
qed

lemma vec_eqI:
  assumes "length (m_store st') = length (m_store st)" "get_num_vars st' = get_num_vars st"
    and "\<And>k. k < get_num_vars st \<Longrightarrow> m_store st' ! (offs + k) = m_store st ! (offs + k)"
  shows "vec st' offs = vec st offs"
proof (cases "offs + get_num_vars st \<le> length (m_store st)")
  case True
  have "take (get_num_vars st) (drop offs (m_store st')) = take (get_num_vars st) (drop offs (m_store st))"
    using True assms by (intro nth_equalityI) auto
  then show ?thesis using True assms(1,2) by (simp add: vec_def)
next
  case False
  then show ?thesis using assms(1,2) by (simp add: vec_def)
qed

lemma resolve_fields:
  assumes "resolve i a r st = Some st'"
  shows "m_ineqs st' = m_ineqs st" "m_basis st' = m_basis st" "m_active st' = m_active st"
    "m_zero st' = m_zero st" "m_cancel st' = m_cancel st" "m_index st' = m_index st"
    "m_passive st' = m_passive st" "m_free_list st' = m_free_list st"
    "get_num_vars st' = get_num_vars st"
  using assms
  by (auto simp: resolve_def set_eval_def bind_eq_Some_conv Let_def get_num_vars_def split: if_splits)

lemma resolve_nonneg:
  assumes "resolve i a r st = Some st'" "store_nonneg st"
  shows "store_nonneg st'"
proof -
  from assms(1) obtain store where
    "resolve_loop i a r [0..<get_num_vars st] (m_store st) = Some store" "m_store st' = store"
    by (auto simp: resolve_def set_eval_def bind_eq_Some_conv Let_def split: if_splits)
  with resolve_loop_nonneg [of i a r _ "m_store st" store] assms(2) show ?thesis
    by (simp add: store_nonneg_def)
qed

lemma resolve_props:
  assumes "store_shape st" "valid_offset st i" "valid_offset st a" "valid_offset st r"
    and "r \<noteq> i" "r \<noteq> a"
  shows "\<exists>st'. resolve i a r st = Some st' \<and> store_shape st' \<and>
     length (m_store st') = length (m_store st) \<and>
     (\<forall>offs. valid_offset st offs \<and> offs \<noteq> r \<longrightarrow> same_at st st' offs) \<and>
     valid_offset st' r \<and>
     (\<exists>vi va vr ei ea. vec st i = Some vi \<and> vec st a = Some va \<and> vec st' r = Some vr \<and>
        (\<forall>k<get_num_vars st. vr ! k = vi ! k + va ! k) \<and>
        eval_at st i = Some ei \<and> eval_at st a = Some ea \<and> eval_at st' r = Some (ei + ea))"
proof -
  let ?n = "get_num_vars st"
  have n: "0 < ?n" "?n dvd i" "?n dvd a" "?n dvd r"
    using assms(2,3,4) by (auto simp: valid_offset_def)
  note bi = valid_offset_bound [OF assms(1,2)]
  note ba = valid_offset_bound [OF assms(1,3)]
  note br = valid_offset_bound [OF assms(1,4)]
  have a1: "\<forall>k \<in> set [0..<?n]. i + k < length (m_store st) \<and> a + k < length (m_store st) \<and>
      r + k < length (m_store st)"
    using bi(1) ba(1) br(1) by auto
  have a2: "\<forall>k \<in> set [0..<?n]. \<forall>k' \<in> set [0..<?n]. r + k \<noteq> i + k' \<and> r + k \<noteq> a + k'"
    using aligned_region_disjoint [OF n(4) n(2) assms(5)]
      aligned_region_disjoint [OF n(4) n(3) assms(6)] by auto
  from resolve_loop_props [OF a1 a2] obtain store where
    rl: "resolve_loop i a r [0..<?n] (m_store st) = Some store"
    and l: "length store = length (m_store st)"
    and w: "\<forall>k \<in> set [0..<?n]. store ! (r + k) = m_store st ! (i + k) + m_store st ! (a + k)"
    and u: "\<forall>p. (\<forall>k \<in> set [0..<?n]. p \<noteq> r + k) \<longrightarrow> store ! p = m_store st ! p"
    by blast
  obtain vi where vi: "vec st i = Some vi" using bi(1) by (simp add: vec_def)
  obtain va where va: "vec st a = Some va" using ba(1) by (simp add: vec_def)
  obtain ei where ei: "eval_at st i = Some ei" using bi(2) n(1) by (simp add: eval_at_def)
  obtain ea where ea: "eval_at st a = Some ea" using ba(2) n(1) by (simp add: eval_at_def)
  define st' where "st' = st \<lparr> m_store := store, m_eval := (m_eval st)[r div ?n := ei + ea] \<rparr>"
  have e: "resolve i a r st = Some st'"
    using rl ei ea br(2) n(1) by (simp add: resolve_def set_eval_def st'_def Let_def)
  have nn: "get_num_vars st' = ?n" by (simp add: st'_def)
  have ss: "store_shape st'" using assms(1) l by (simp add: st'_def store_shape_def)
  have vr: "valid_offset st' r" using assms(4) l by (simp add: st'_def valid_offset_def)
  have same: "\<forall>offs. valid_offset st offs \<and> offs \<noteq> r \<longrightarrow> same_at st st' offs"
  proof (intro allI impI)
    fix offs assume o: "valid_offset st offs \<and> offs \<noteq> r"
    then have d: "?n dvd offs" by (simp add: valid_offset_def)
    have "\<And>k. k < ?n \<Longrightarrow> store ! (offs + k) = m_store st ! (offs + k)"
    proof -
      fix k assume "k < ?n"
      have "offs \<noteq> r" using o by simp
      from aligned_region_disjoint [OF d n(4) this \<open>k < ?n\<close>]
      have "\<forall>k' \<in> set [0..<?n]. offs + k \<noteq> r + k'" by simp
      with u show "store ! (offs + k) = m_store st ! (offs + k)" by blast
    qed
    then have "vec st' offs = vec st offs"
      using l by (intro vec_eqI) (simp_all add: st'_def)
    moreover have "eval_at st' offs = eval_at st offs"
      using aligned_div_neq [OF d n(4)] o by (simp add: st'_def eval_at_def nth_opt_def)
    moreover have "valid_offset st' offs" using o l by (simp add: st'_def valid_offset_def)
    ultimately show "same_at st st' offs" by (simp add: same_at_def)
  qed
  obtain vr' where vr': "vec st' r = Some vr'" using br(1) l by (simp add: vec_def st'_def)
  have "\<forall>k<?n. vr' ! k = vi ! k + va ! k"
  proof (intro allI impI)
    fix k assume k: "k < ?n"
    have "vr' ! k = m_store st' ! (r + k)" using vec_nth [OF vr'] k nn by simp
    also have "\<dots> = m_store st ! (i + k) + m_store st ! (a + k)" using w k by (simp add: st'_def)
    also have "\<dots> = vi ! k + va ! k" using vec_nth [OF vi k] vec_nth [OF va k] by simp
    finally show "vr' ! k = vi ! k + va ! k" .
  qed
  moreover have "eval_at st' r = Some (ei + ea)"
    using br(2) n(1) by (simp add: st'_def eval_at_def)
  ultimately show ?thesis using e ss l same vr vi va vr' ei ea by (auto simp: st'_def)
qed

lemma set_eval_props:
  assumes "store_shape st" "valid_offset st r"
  shows "\<exists>st'. set_eval r x st = Some st' \<and> st' = st \<lparr> m_eval := (m_eval st)[r div get_num_vars st := x] \<rparr> \<and>
     store_shape st' \<and> eval_at st' r = Some x \<and> vec st' = vec st \<and>
     (\<forall>offs. valid_offset st offs \<and> offs \<noteq> r \<longrightarrow> same_at st st' offs) \<and>
     valid_offset st' = valid_offset st"
proof -
  let ?n = "get_num_vars st"
  have n: "0 < ?n" "?n dvd r" using assms(2) by (auto simp: valid_offset_def)
  note br = valid_offset_bound [OF assms]
  define st' where "st' = st \<lparr> m_eval := (m_eval st)[r div ?n := x] \<rparr>"
  have "set_eval r x st = Some st'" using br(2) n(1) by (simp add: set_eval_def st'_def)
  moreover have "store_shape st'" using assms(1) by (simp add: st'_def store_shape_def)
  moreover have "eval_at st' r = Some x" using br(2) n(1) by (simp add: st'_def eval_at_def)
  moreover have "\<forall>offs. valid_offset st offs \<and> offs \<noteq> r \<longrightarrow> same_at st st' offs"
  proof (intro allI impI)
    fix offs assume o: "valid_offset st offs \<and> offs \<noteq> r"
    then have d: "?n dvd offs" by (simp add: valid_offset_def)
    show "same_at st st' offs"
      using aligned_div_neq [OF d n(2)] o
      by (simp add: same_at_def st'_def eval_at_def nth_opt_def)
  qed
  ultimately show ?thesis by (simp add: st'_def)
qed

lemma heap_min_in: "heap_min lt m xs \<in> set (m # xs)"
  by (induction xs arbitrary: m) auto

lemma heap_min_le:
  "u \<in> set (m # xs) \<Longrightarrow> ws ! heap_min (rational_lt ws) m xs \<le> ws ! u"
proof (induction xs arbitrary: m u)
  case Nil
  then show ?case by simp
next
  case (Cons x xs)
  let ?m = "if rational_lt ws x m then x else m"
  have a: "ws ! heap_min (rational_lt ws) ?m xs \<le> ws ! ?m"
    by (rule Cons.IH) simp
  have b: "ws ! ?m \<le> ws ! x" "ws ! ?m \<le> ws ! m"
    by (auto simp: rational_lt_def)
  show ?case
  proof (cases "u \<in> set xs")
    case True
    then have "ws ! heap_min (rational_lt ws) ?m xs \<le> ws ! u"
      by (intro Cons.IH) simp
    then show ?thesis by simp
  next
    case False
    with Cons.prems have "u = m \<or> u = x" by auto
    with a b show ?thesis by auto
  qed
qed

lemma distinct_map_remove1:
  "distinct (map f xs) \<Longrightarrow> v \<in> set xs \<Longrightarrow>
     distinct (f v # map f (remove1 v xs)) \<and> set (f v # map f (remove1 v xs)) = set (map f xs)"
proof (induction xs)
  case Nil
  then show ?case by simp
next
  case (Cons x xs)
  show ?case
  proof (cases "x = v")
    case True
    with Cons.prems show ?thesis by simp
  next
    case False
    with Cons.prems have "v \<in> set xs" "distinct (map f xs)" by auto
    from Cons.IH [OF this(2,1)] Cons.prems False show ?thesis by auto
  qed
qed

lemma passive_pop_props:
  assumes "passive_wf p" "pv_heap p \<noteq> []"
  shows "\<exists>v idx p'. passive_pop p = Some (idx, p') \<and> v \<in> set (pv_heap p) \<and>
     idx = pv_passive p ! v \<and>
     (\<forall>u \<in> set (pv_heap p). m_weights p ! v \<le> m_weights p ! u) \<and>
     passive_wf p' \<and> pv_heap p' = remove1 v (pv_heap p) \<and> m_weights p' = m_weights p \<and>
     (\<forall>u \<in> set (pv_heap p'). pv_passive p' ! u = pv_passive p ! u)"
proof -
  from assms(2) obtain x xs where h: "pv_heap p = x # xs" by (cases "pv_heap p") auto
  define v where "v = heap_min (rational_lt (m_weights p)) x xs"
  have vin: "v \<in> set (pv_heap p)" unfolding v_def h by (rule heap_min_in)
  have vmin: "\<forall>u \<in> set (pv_heap p). m_weights p ! v \<le> m_weights p ! u"
    unfolding v_def h using heap_min_le by blast
  have vl: "v < length (pv_passive p)" using assms(1) vin by (auto simp: passive_wf_def)
  define p' where "p' = p \<lparr> pv_passive := (pv_passive p)[v := mk_invalid_offset],
                          pv_free_list := pv_free_list p @ [v],
                          pv_heap := remove1 v (pv_heap p) \<rparr>"
  have e: "passive_pop p = Some (pv_passive p ! v, p')"
    using vl by (simp add: passive_pop_def heap_erase_min_def h v_def p'_def Let_def)
  have d: "distinct (pv_heap p)" "distinct (pv_free_list p)"
    "set (pv_heap p) \<inter> set (pv_free_list p) = {}"
    using assms(1) by (auto simp: passive_wf_def)
  have "passive_wf p'"
    using assms(1) vin d unfolding passive_wf_def p'_def
    by (auto dest: in_set_remove1D)
  moreover have "\<forall>u \<in> set (pv_heap p'). pv_passive p' ! u = pv_passive p ! u"
    using d(1) by (auto simp: p'_def nth_list_update)
  ultimately show ?thesis using e vin vmin by (auto simp: p'_def)
qed

lemma passive_offs_pop:
  assumes "v \<in> set (pv_heap p)" "pv_heap p' = remove1 v (pv_heap p)"
    "\<forall>u \<in> set (pv_heap p'). pv_passive p' ! u = pv_passive p ! u"
    "distinct (passive_offs p)"
  shows "distinct (pv_passive p ! v # passive_offs p')"
    and "set (pv_passive p ! v # passive_offs p') = set (passive_offs p)"
proof -
  have "passive_offs p' = map (\<lambda>u. pv_passive p ! u) (remove1 v (pv_heap p))"
    using assms(2,3) by (simp add: passive_offs_def)
  with distinct_map_remove1 [of "\<lambda>u. pv_passive p ! u" "pv_heap p" v] assms(1,4)
  show "distinct (pv_passive p ! v # passive_offs p')"
    and "set (pv_passive p ! v # passive_offs p') = set (passive_offs p)"
    by (simp_all add: passive_offs_def)
qed

lemma passive_insert_props:
  assumes "passive_wf p"
  shows "\<exists>v p'. passive_insert idx w p = Some p' \<and> passive_wf p' \<and>
     pv_heap p' = pv_heap p @ [v] \<and> pv_passive p' ! v = idx \<and> m_weights p' ! v = w \<and>
     (\<forall>u \<in> set (pv_heap p). pv_passive p' ! u = pv_passive p ! u \<and>
                               m_weights p' ! u = m_weights p ! u)"
proof (cases "pv_free_list p = []")
  case True
  define v where "v = length (pv_passive p)"
  define p' where "p' = p \<lparr> pv_passive := pv_passive p @ [idx], m_weights := m_weights p @ [w],
                      pv_heap := heap_insert v (pv_heap p) \<rparr>"
  have "passive_insert idx w p = Some p'" using True by (simp add: passive_insert_def p'_def v_def Let_def)
  moreover have "passive_wf p'" using assms True unfolding passive_wf_def p'_def v_def heap_insert_def
    by (auto simp: less_Suc_eq)
  moreover have "\<forall>u \<in> set (pv_heap p). pv_passive p' ! u = pv_passive p ! u \<and>
                               m_weights p' ! u = m_weights p ! u"
    using assms unfolding passive_wf_def p'_def by (auto simp: nth_append)
  moreover have "pv_passive p' ! v = idx" "m_weights p' ! v = w"
    using assms unfolding passive_wf_def p'_def v_def by (auto simp: nth_append)
  ultimately show ?thesis by (auto simp: p'_def heap_insert_def)
next
  case False
  define v where "v = last (pv_free_list p)"
  have vf: "v \<in> set (pv_free_list p)" using False by (simp add: v_def)
  then have vl: "v < length (pv_passive p)" "v \<notin> set (pv_heap p)"
    using assms by (auto simp: passive_wf_def)
  have fl: "pv_free_list p = butlast (pv_free_list p) @ [v]" using False by (simp add: v_def)
  define p' where "p' = p \<lparr> pv_passive := (pv_passive p)[v := idx], m_weights := (m_weights p)[v := w],
                     pv_free_list := butlast (pv_free_list p),
                     pv_heap := heap_insert v (pv_heap p) \<rparr>"
  have "passive_insert idx w p = Some p'" using False vl assms
    by (simp add: passive_insert_def p'_def v_def Let_def passive_wf_def)
  moreover have "passive_wf p'"
  proof -
    have "distinct (pv_heap p @ butlast (pv_free_list p) @ [v])"
      "\<forall>u \<in> set (pv_heap p @ butlast (pv_free_list p) @ [v]). u < length (pv_passive p)"
      using assms fl unfolding passive_wf_def by metis+
    then show ?thesis using assms unfolding passive_wf_def p'_def heap_insert_def by auto
  qed
  moreover have "\<forall>u \<in> set (pv_heap p). pv_passive p' ! u = pv_passive p ! u \<and>
                               m_weights p' ! u = m_weights p ! u"
    using vl by (auto simp: p'_def nth_list_update)
  moreover have "pv_passive p' ! v = idx" "m_weights p' ! v = w"
    using vl assms unfolding passive_wf_def p'_def by auto
  ultimately show ?thesis by (auto simp: p'_def heap_insert_def)
qed

lemma passive_offs_insert:
  assumes "pv_heap p' = pv_heap p @ [v]" "pv_passive p' ! v = idx"
    "\<forall>u \<in> set (pv_heap p). pv_passive p' ! u = pv_passive p ! u"
  shows "passive_offs p' = passive_offs p @ [idx]"
  using assms by (simp add: passive_offs_def)

lemma passive_wf_reset: "passive_wf passive_reset" "passive_offs passive_reset = []"
  by (simp_all add: passive_wf_def passive_reset_def passive_offs_def)

lemma insert_loop_props:
  assumes "\<forall>j<length wms. wm_inv (wms ! j)" "i + length wms \<le> length vs"
  shows "\<exists>wms'. insert_loop idx vs i wms = Some wms' \<and> length wms' = length wms \<and>
     (\<forall>j<length wms. wm_insert idx (vs ! (i + j)) (wms ! j) = Some (wms' ! j))"
  using assms
proof (induction wms arbitrary: i)
  case Nil
  then show ?case by simp
next
  case (Cons wm wms)
  have "wm_inv wm" using Cons.prems(1) by (auto dest: spec [of _ 0])
  from wm_insert_Some [OF this, of idx "vs ! i"] obtain wm' where
    w: "wm_insert idx (vs ! i) wm = Some wm'" by blast
  have "\<forall>j<length wms. wm_inv (wms ! j)" using Cons.prems(1) by (auto dest: spec [of _ "Suc j" for j])
  moreover have "Suc i + length wms \<le> length vs" using Cons.prems(2) by simp
  ultimately obtain wms' where
    r: "insert_loop idx vs (Suc i) wms = Some wms'" "length wms' = length wms"
    "\<forall>j<length wms. wm_insert idx (vs ! (Suc i + j)) (wms ! j) = Some (wms' ! j)"
    using Cons.IH [of "Suc i"] by blast
  have "insert_loop idx vs i (wm # wms) = Some (wm' # wms')"
    using w r(1) Cons.prems(2) by simp
  moreover have "\<forall>j<length (wm # wms). wm_insert idx (vs ! (i + j)) ((wm # wms) ! j) = Some ((wm' # wms') ! j)"
    using w r(3) by (auto simp: nth_Cons split: nat.splits)
  ultimately show ?case using r(2) by simp
qed

lemma remove_loop_props:
  assumes "\<forall>j<length wms. wm_inv (wms ! j)" "i + length wms \<le> length vs"
  shows "\<exists>wms'. remove_loop idx vs i wms = Some wms' \<and> length wms' = length wms \<and>
     (\<forall>j<length wms. wm_remove idx (vs ! (i + j)) (wms ! j) = Some (wms' ! j))"
  using assms
proof (induction wms arbitrary: i)
  case Nil
  then show ?case by simp
next
  case (Cons wm wms)
  have "wm_inv wm" using Cons.prems(1) by (auto dest: spec [of _ 0])
  from wm_remove_Some [OF this, of idx "vs ! i"] obtain wm' where
    w: "wm_remove idx (vs ! i) wm = Some wm'" by blast
  have "\<forall>j<length wms. wm_inv (wms ! j)" using Cons.prems(1) by (auto dest: spec [of _ "Suc j" for j])
  moreover have "Suc i + length wms \<le> length vs" using Cons.prems(2) by simp
  ultimately obtain wms' where
    r: "remove_loop idx vs (Suc i) wms = Some wms'" "length wms' = length wms"
    "\<forall>j<length wms. wm_remove idx (vs ! (Suc i + j)) (wms ! j) = Some (wms' ! j)"
    using Cons.IH [of "Suc i"] by blast
  have "remove_loop idx vs i (wm # wms) = Some (wm' # wms')"
    using w r(1) Cons.prems(2) by simp
  moreover have "\<forall>j<length (wm # wms). wm_remove idx (vs ! (i + j)) ((wm # wms) ! j) = Some ((wm' # wms') ! j)"
    using w r(3) by (auto simp: nth_Cons split: nat.splits)
  ultimately show ?case using r(2) by simp
qed

lemma index_insert_props:
  assumes "index_inv n ix" "n \<le> length vs"
  shows "\<exists>ix'. index_insert idx vs weight ix = Some ix' \<and>
     length (m_values ix') = n \<and> m_refs ix' = [] \<and>
     (\<forall>offs e. wm_has (m_weight ix') offs e \<longleftrightarrow>
        wm_has (m_weight ix) offs e \<or> (offs = idx \<and> e = weight)) \<and>
     (\<forall>i<n. \<forall>offs c. wm_has (m_values ix' ! i) offs c \<longleftrightarrow>
        wm_has (m_values ix ! i) offs c \<or> (offs = idx \<and> c = vs ! i)) \<and>
     (\<forall>i<n. set (m_u2r (wm_heap (m_values ix' ! i))) =
        insert (vs ! i) (set (m_u2r (wm_heap (m_values ix ! i))))) \<and>
     (\<forall>i<n. wm_inv (m_values ix' ! i)) \<and> wm_inv (m_weight ix') \<and>
     ((\<forall>e. \<not> wm_has (m_weight ix) idx e) \<and> (\<forall>i<n. \<forall>c. \<not> wm_has (m_values ix ! i) idx c)
        \<longrightarrow> index_inv n ix')"
proof -
  have wi: "wm_inv (m_weight ix)" and r0: "m_refs ix = []" and len: "length (m_values ix) = n"
    and vi: "\<forall>i<n. wm_inv (m_values ix ! i) \<and> wm_uniq (m_values ix ! i)"
    and wu: "wm_uniq (m_weight ix)"
    using assms(1) by (auto simp: index_inv_def)
  have "\<forall>j<length (m_values ix). wm_inv (m_values ix ! j)" "0 + length (m_values ix) \<le> length vs"
    using vi len assms(2) by auto
  from insert_loop_props [OF this, of idx] obtain wms where
    il: "insert_loop idx vs 0 (m_values ix) = Some wms" and l: "length wms = n"
    and pw: "\<forall>j<n. wm_insert idx (vs ! j) (m_values ix ! j) = Some (wms ! j)"
    using len by auto
  from wm_insert_Some [OF wi, of idx weight] obtain w' where
    w': "wm_insert idx weight (m_weight ix) = Some w'" by blast
  define ix' where "ix' = ix \<lparr> m_values := wms, m_weight := w' \<rparr>"
  have e: "index_insert idx vs weight ix = Some ix'"
    using il w' by (simp add: index_insert_def ix'_def)
  note wp = wm_insert_props [OF wi w']
  have vp: "\<And>i. i < n \<Longrightarrow> wm_inv (wms ! i) \<and>
      (\<forall>offs c. wm_has (wms ! i) offs c \<longleftrightarrow> wm_has (m_values ix ! i) offs c \<or> (offs = idx \<and> c = vs ! i)) \<and>
      set (m_u2r (wm_heap (wms ! i))) = insert (vs ! i) (set (m_u2r (wm_heap (m_values ix ! i)))) \<and>
      ((\<forall>c. \<not> wm_has (m_values ix ! i) idx c) \<longrightarrow> wm_uniq (wms ! i))"
  proof -
    fix i assume i: "i < n"
    then have a: "wm_inv (m_values ix ! i)" "wm_uniq (m_values ix ! i)"
      "wm_insert idx (vs ! i) (m_values ix ! i) = Some (wms ! i)"
      using vi pw by auto
    note p = wm_insert_props [OF a(1,3)]
    show "wm_inv (wms ! i) \<and>
      (\<forall>offs c. wm_has (wms ! i) offs c \<longleftrightarrow> wm_has (m_values ix ! i) offs c \<or> (offs = idx \<and> c = vs ! i)) \<and>
      set (m_u2r (wm_heap (wms ! i))) = insert (vs ! i) (set (m_u2r (wm_heap (m_values ix ! i)))) \<and>
      ((\<forall>c. \<not> wm_has (m_values ix ! i) idx c) \<longrightarrow> wm_uniq (wms ! i))"
      using p(1,2,3) p(4) [OF a(2)] by blast
  qed
  have "(\<forall>e. \<not> wm_has (m_weight ix) idx e) \<and> (\<forall>i<n. \<forall>c. \<not> wm_has (m_values ix ! i) idx c)
        \<longrightarrow> index_inv n ix'"
    unfolding index_inv_def ix'_def using l r0 vp wp(1) wp(4) [OF wu] by auto
  then show ?thesis using e l r0 wp(1,2) vp unfolding ix'_def by auto
qed

lemma index_remove_props:
  assumes "index_inv n ix" "n \<le> length vs"
  shows "\<exists>ix'. index_remove idx vs weight ix = Some ix' \<and> index_inv n ix' \<and>
     (\<forall>offs e. wm_has (m_weight ix') offs e \<longleftrightarrow>
        wm_has (m_weight ix) offs e \<and> \<not> (offs = idx \<and> e = weight)) \<and>
     (\<forall>i<n. \<forall>offs c. wm_has (m_values ix' ! i) offs c \<longleftrightarrow>
        wm_has (m_values ix ! i) offs c \<and> \<not> (offs = idx \<and> c = vs ! i)) \<and>
     (\<forall>i<n. set (m_u2r (wm_heap (m_values ix' ! i))) =
        insert (vs ! i) (set (m_u2r (wm_heap (m_values ix ! i)))))"
proof -
  have wi: "wm_inv (m_weight ix)" and r0: "m_refs ix = []" and len: "length (m_values ix) = n"
    and vi: "\<forall>i<n. wm_inv (m_values ix ! i) \<and> wm_uniq (m_values ix ! i)"
    and wu: "wm_uniq (m_weight ix)"
    using assms(1) by (auto simp: index_inv_def)
  have "\<forall>j<length (m_values ix). wm_inv (m_values ix ! j)" "0 + length (m_values ix) \<le> length vs"
    using vi len assms(2) by auto
  from remove_loop_props [OF this, of idx] obtain wms where
    il: "remove_loop idx vs 0 (m_values ix) = Some wms" and l: "length wms = n"
    and pw: "\<forall>j<n. wm_remove idx (vs ! j) (m_values ix ! j) = Some (wms ! j)"
    using len by auto
  from wm_remove_Some [OF wi, of idx weight] obtain w' where
    w': "wm_remove idx weight (m_weight ix) = Some w'" by blast
  define ix' where "ix' = ix \<lparr> m_values := wms, m_weight := w' \<rparr>"
  have e: "index_remove idx vs weight ix = Some ix'"
    using il w' by (simp add: index_remove_def ix'_def)
  note wp = wm_remove_props [OF wi w']
  have vp: "\<And>i. i < n \<Longrightarrow> wm_inv (wms ! i) \<and> wm_uniq (wms ! i) \<and>
      (\<forall>offs c. wm_has (wms ! i) offs c \<longleftrightarrow> wm_has (m_values ix ! i) offs c \<and> \<not> (offs = idx \<and> c = vs ! i)) \<and>
      set (m_u2r (wm_heap (wms ! i))) = insert (vs ! i) (set (m_u2r (wm_heap (m_values ix ! i))))"
  proof -
    fix i assume i: "i < n"
    then have a: "wm_inv (m_values ix ! i)" "wm_uniq (m_values ix ! i)"
      "wm_remove idx (vs ! i) (m_values ix ! i) = Some (wms ! i)"
      using vi pw by auto
    note p = wm_remove_props [OF a(1,3)]
    show "wm_inv (wms ! i) \<and> wm_uniq (wms ! i) \<and>
      (\<forall>offs c. wm_has (wms ! i) offs c \<longleftrightarrow> wm_has (m_values ix ! i) offs c \<and> \<not> (offs = idx \<and> c = vs ! i)) \<and>
      set (m_u2r (wm_heap (wms ! i))) = insert (vs ! i) (set (m_u2r (wm_heap (m_values ix ! i))))"
      using p(1) p(2) [OF a(2)] p(3) p(4) [OF a(2)] by blast
  qed
  have "index_inv n ix'"
    unfolding index_inv_def ix'_def using l r0 vp wp(1) wp(4) [OF wu] by auto
  then show ?thesis using e l wp(2) [OF wu] vp unfolding ix'_def by auto
qed

lemma index_inv_reset:
  "index_inv (length (m_values ix)) (index_reset ix)"
  by (simp add: index_inv_def index_reset_def wm_inv_reset wm_uniq_reset)

lemma index_reset_empty:
  "\<not> wm_has (m_weight (index_reset ix)) offs e"
  "i < length (m_values ix) \<Longrightarrow> \<not> wm_has (m_values (index_reset ix) ! i) offs c"
  by (simp_all add: index_reset_def)

section \<open>The claims\<close>

subsection \<open>The seed step of find\<close>

text \<open>
  Claim C3. The seed step \<^verbatim>\<open>init_find\<close> over the evaluation weight map, started with an
  empty \<^verbatim>\<open>refs\<close>, returns and collects exactly the following offsets, each with
  round 0 and never \<open>idx\<close> itself: when \<open>w > 0\<close>, the offsets listed under an evaluation
  in the half-open interval \<open>(0, w]\<close> (evaluation zero is skipped); when \<open>w \<le> 0\<close>, the
  offsets listed under the evaluation \<open>w\<close> exactly.
\<close>

theorem init_find_seed:
  assumes "wm_inv wm"
  shows "\<exists>found refs fi' wm'. init_find [] w idx fi wm = Some (found, refs, fi', wm') \<and>
     fst ` set refs = {offs. offs \<noteq> idx \<and>
        (\<exists>e. wm_has wm offs e \<and> (if 0 < w then 0 < e \<and> e \<le> w else e = w))} \<and>
     snd ` set refs \<subseteq> {0}"
proof -
  from init_find_seed_aux [OF assms, of "[]" w idx fi] obtain found refs fi' wm' where
    e: "init_find [] w idx fi wm = Some (found, refs, fi', wm')"
    and p: "init_post (\<lambda>offs. offs \<noteq> idx \<and> (\<exists>e. wm_has wm offs e \<and> seed_ok w e))
       ([], fi, False) (refs, fi', found)"
    by blast
  from p have "set refs = (\<lambda>offs. (offs, 0)) ` {offs. offs \<noteq> idx \<and> (\<exists>e. wm_has wm offs e \<and> seed_ok w e)}"
    by simp
  then have "fst ` set refs = {offs. offs \<noteq> idx \<and> (\<exists>e. wm_has wm offs e \<and> seed_ok w e)}"
    "snd ` set refs \<subseteq> {0}"
    by (auto simp: image_image)
  with e show ?thesis unfolding seed_ok_def by blast
qed

theorem init_find_seed_witness:
  "wm_inv wm_example \<and>
   (\<exists>found refs fi' wm'. init_find [] 2 6 0 wm_example = Some (found, refs, fi', wm') \<and>
     fst ` set refs = {offs. offs \<noteq> 6 \<and>
        (\<exists>e. wm_has wm_example offs e \<and> (if 0 < (2::rat) then 0 < e \<and> e \<le> 2 else e = 2))} \<and>
     snd ` set refs \<subseteq> {0}) \<and>
   map_option (\<lambda>(found, refs, fi', wm'). (found, refs, fi')) (init_find [] 2 6 0 wm_example)
     = Some (True, [(0, 0)], 0)"
proof -
  have "map_option (\<lambda>(found, refs, fi', wm'). (found, refs, fi')) (init_find [] 2 6 0 wm_example)
     = Some (True, [(0, 0)], 0)"
    by code_simp
  with wm_inv_example init_find_seed [OF wm_inv_example, of 2 6 0] show ?thesis by blast
qed

subsection \<open>The equality scenario\<close>

text \<open>
  Claim C7. For \<open>n = 2\<close>, a single \<^verbatim>\<open>add_eq((1,-1))\<close> on a new engine followed by
  \<^verbatim>\<open>saturate()\<close> returns \<^verbatim>\<open>l_true\<close> (Sat), and the basis then holds exactly one
  vector, \<open>(1,1)\<close>.
\<close>

theorem saturate_add_eq_diagonal:
  "map_option (\<lambda>(r, st). (r, get_basis st)) (saturate (add_eq [1, - 1] hb_new))
     = Some (l_true, [Some [1, 1]])"
  by code_simp

end
